theory Spec2Isabelle
  imports Main
begin

section \<open>The data model of \<open>uthread.c\<close>\<close>

text \<open>
  Blocks obtained from \<open>malloc\<close> are named by addresses; a pointer is an optional
  address, \<open>None\<close> being \<open>NULL\<close>. Every kind of block has a store of its own: the
  thread records (\<open>struct node\<close>), the contexts (\<open>ucontext_t\<close>) and the stacks. An
  address outside the domain of a store names no live block of that kind: it was never
  allocated or it has been freed.
\<close>

type_synonym addr = nat

text \<open>\<open>struct node\<close>. A function pointer is the number of the function it points to.
  The priority is a C \<open>int\<close> that the code only stores and compares.\<close>

record uthread_t =
  priority :: int
  func :: nat
  context_n :: "addr option"
  next_n :: "addr option"
  prev_n :: "addr option"

text \<open>\<open>struct queue\<close>. The code changes \<open>size\<close> by one at a time, and it counts records
  that each fill a block of memory, so it stays far from the bounds of a C \<open>int\<close>: it
  is an integer here, with no wrap-around.\<close>

record queue_t =
  head :: "addr option"
  size_q :: int
  active :: "addr option"

text \<open>What the code touches of a \<open>ucontext_t\<close>: the stack it is bound to and the
  function \<open>makecontext\<close> gave it.\<close>

record ucontext_t =
  ss_sp :: "addr option"
  ss_size :: nat
  entry :: "nat option"

type_synonym heap = "addr \<rightharpoonup> uthread_t"

text \<open>What C leaves undefined is an error value of the model.\<close>

datatype error =
    NullPointer      \<comment> \<open>a field of \<open>NULL\<close> is read or written\<close>
  | InvalidPointer   \<comment> \<open>a pointer to no live block is dereferenced\<close>
  | InvalidFree      \<comment> \<open>\<open>free\<close> of a pointer to no live block\<close>
  | InvalidSemaphore \<comment> \<open>the semaphore is used before \<open>sem_init\<close> or after \<open>sem_destroy\<close>\<close>

fun andThen :: "error + 'a \<Rightarrow> ('a \<Rightarrow> error + 'b) \<Rightarrow> error + 'b" where
  "andThen (Inl e) f = Inl e"
| "andThen (Inr x) f = f x"

text \<open>\<open>*p\<close> for a pointer to a thread record.\<close>

definition deref :: "heap \<Rightarrow> addr option \<Rightarrow> error + uthread_t" where
  "deref h p =
     (case p of
        None \<Rightarrow> Inl NullPointer
      | Some a \<Rightarrow> (case h a of None \<Rightarrow> Inl InvalidPointer | Some n \<Rightarrow> Inr n))"

text \<open>\<open>p->next = v\<close>, \<open>p->prev = v\<close> and \<open>p->priority = v\<close>.\<close>

definition set_next :: "heap \<Rightarrow> addr option \<Rightarrow> addr option \<Rightarrow> error + heap" where
  "set_next h p v =
     (case p of
        None \<Rightarrow> Inl NullPointer
      | Some a \<Rightarrow>
          (case h a of
             None \<Rightarrow> Inl InvalidPointer
           | Some n \<Rightarrow> Inr (h(a \<mapsto> n\<lparr>next_n := v\<rparr>))))"

definition set_prev :: "heap \<Rightarrow> addr option \<Rightarrow> addr option \<Rightarrow> error + heap" where
  "set_prev h p v =
     (case p of
        None \<Rightarrow> Inl NullPointer
      | Some a \<Rightarrow>
          (case h a of
             None \<Rightarrow> Inl InvalidPointer
           | Some n \<Rightarrow> Inr (h(a \<mapsto> n\<lparr>prev_n := v\<rparr>))))"

definition set_priority :: "heap \<Rightarrow> addr option \<Rightarrow> int \<Rightarrow> error + heap" where
  "set_priority h p v =
     (case p of
        None \<Rightarrow> Inl NullPointer
      | Some a \<Rightarrow>
          (case h a of
             None \<Rightarrow> Inl InvalidPointer
           | Some n \<Rightarrow> Inr (h(a \<mapsto> n\<lparr>priority := v\<rparr>))))"

section \<open>The thread queue\<close>

text \<open>\<open>add\<close>, statement by statement. The queue structure is passed beside the store
  of the thread records that its pointers lead into.\<close>

definition add :: "heap \<times> queue_t \<Rightarrow> addr option \<Rightarrow> error + heap \<times> queue_t" where
  "add hq item =
     (case hq of (h, q) \<Rightarrow>
        if size_q q = 0 then
          andThen (set_next h item item) (\<lambda>h1.
          andThen (set_prev h1 item item) (\<lambda>h2.
          Inr (h2, q\<lparr>head := item, size_q := size_q q + 1\<rparr>)))
        else if size_q q = 1 then
          andThen (set_next h item (head q)) (\<lambda>h1.
          andThen (set_prev h1 item (head q)) (\<lambda>h2.
          andThen (set_next h2 (head q) item) (\<lambda>h3.
          andThen (set_prev h3 (head q) item) (\<lambda>h4.
          Inr (h4, q\<lparr>size_q := size_q q + 1\<rparr>)))))
        else
          andThen (deref h (head q)) (\<lambda>hn.
          andThen (set_prev h (next_n hn) item) (\<lambda>h1.
          andThen (deref h1 (head q)) (\<lambda>hn1.
          andThen (set_next h1 item (next_n hn1)) (\<lambda>h2.
          andThen (set_prev h2 item (head q)) (\<lambda>h3.
          andThen (set_next h3 (head q) item) (\<lambda>h4.
          Inr (h4, q\<lparr>size_q := size_q q + 1\<rparr>))))))))"

text \<open>The search loop of \<open>get_priority_thread\<close>. Nothing in the code bounds the number
  of its iterations, so the model is a partial function: \<open>None\<close> is a loop that never
  ends.\<close>

partial_function (option) scan ::
  "heap \<Rightarrow> addr option \<Rightarrow> addr option \<Rightarrow> addr option \<Rightarrow> int \<Rightarrow> (error + addr option) option"
where
  "scan h qhead cur priority_node highest_priority =
     (case deref h cur of
        Inl e \<Rightarrow> Some (Inl e)
      | Inr c \<Rightarrow>
          if prev_n c \<noteq> qhead then
            (case deref h (prev_n c) of
               Inl e \<Rightarrow> Some (Inl e)
             | Inr c' \<Rightarrow>
                 if priority c' < highest_priority
                 then scan h qhead (prev_n c) (prev_n c) (priority c')
                 else scan h qhead (prev_n c) priority_node highest_priority)
          else Some (Inr priority_node))"

text \<open>The unlinking at the end of \<open>get_priority_thread\<close>.\<close>

definition unlink ::
  "heap \<Rightarrow> queue_t \<Rightarrow> addr option \<Rightarrow> error + addr option \<times> heap \<times> queue_t" where
  "unlink h q priority_node =
     andThen (deref h priority_node) (\<lambda>n.
     let q1 = (if priority_node = head q then q\<lparr>head := prev_n n\<rparr> else q) in
     andThen (set_next h (prev_n n) (next_n n)) (\<lambda>h1.
     andThen (deref h1 priority_node) (\<lambda>n1.
     andThen (set_prev h1 (next_n n1) (prev_n n1)) (\<lambda>h2.
     Inr (priority_node, h2, q1\<lparr>size_q := size_q q1 - 1\<rparr>)))))"

definition get_priority_thread ::
  "heap \<times> queue_t \<Rightarrow> (error + addr option \<times> heap \<times> queue_t) option" where
  "get_priority_thread hq =
     (case hq of (h, q) \<Rightarrow>
        if size_q q = 0 then Some (Inr (None, h, q))
        else if size_q q = 1 then Some (Inr (head q, h, q\<lparr>head := None, size_q := 0\<rparr>))
        else
          (case deref h (head q) of
             Inl e \<Rightarrow> Some (Inl e)
           | Inr c \<Rightarrow>
               (case scan h (head q) (head q) (head q) (priority c) of
                  None \<Rightarrow> None
                | Some (Inl e) \<Rightarrow> Some (Inl e)
                | Some (Inr priority_node) \<Rightarrow> Some (unlink h q priority_node))))"

text \<open>The loop of \<open>cleanup_queue\<close>: it reads \<open>curr->next\<close> and then frees the record. A
  freed record is no longer in the store, so reading it again is an error.\<close>

partial_function (option) cleanup_loop :: "heap \<Rightarrow> addr option \<Rightarrow> (error + heap) option" where
  "cleanup_loop h cur =
     (case cur of
        None \<Rightarrow> Some (Inr h)
      | Some to_free \<Rightarrow>
          (case h to_free of
             None \<Rightarrow> Some (Inl InvalidPointer)
           | Some n \<Rightarrow> cleanup_loop (h(to_free := None)) (next_n n)))"


text \<open>\<open>free\<close> of a thread record; \<open>free(NULL)\<close> does nothing.\<close>

definition free_node :: "heap \<Rightarrow> addr option \<Rightarrow> error + heap" where
  "free_node h p =
     (case p of
        None \<Rightarrow> Inr h
      | Some a \<Rightarrow> (case h a of None \<Rightarrow> Inl InvalidFree | Some n \<Rightarrow> Inr (h(a := None))))"

section \<open>The library\<close>

text \<open>The memory of the process and the two globals, \<open>lock\<close> and \<open>thread_queue\<close>. The
  queue structure stands for the block \<open>thread_queue\<close> points to (\<open>None\<close>: the pointer
  is \<open>NULL\<close> or the block is freed). The semaphore is its counter, \<open>None\<close> while it is
  not initialised.\<close>

record world =
  nodes :: heap
  contexts :: "addr \<rightharpoonup> ucontext_t"
  stacks :: "addr set"
  thread_queue :: "queue_t option"
  lock :: "nat option"

text \<open>How a call of the library ends.\<close>

datatype outcome =
    Returned int        \<comment> \<open>the call returns this value\<close>
  | Switched addr addr  \<comment> \<open>\<open>swapcontext\<close>: the caller is saved in the first context and the
                            second one runs; the call returns 0 once the caller is resumed\<close>
  | Jumped addr         \<comment> \<open>\<open>setcontext\<close>: the context runs, the call never returns\<close>
  | Exited int          \<comment> \<open>\<open>exit\<close>: the process ends with this status\<close>

text \<open>A call that may also never return: \<open>None\<close>.\<close>

fun andThenP :: "(error + 'a) option \<Rightarrow> ('a \<Rightarrow> (error + 'b) option) \<Rightarrow> (error + 'b) option" where
  "andThenP None f = None"
| "andThenP (Some (Inl e)) f = Some (Inl e)"
| "andThenP (Some (Inr x)) f = f x"

text \<open>The semaphore. The process has one thread of execution, so a wait on a counter
  of zero is never woken.\<close>

definition sem_wait :: "nat option \<Rightarrow> (error + nat option) option" where
  "sem_wait l =
     (case l of
        None \<Rightarrow> Some (Inl InvalidSemaphore)
      | Some n \<Rightarrow> (case n of 0 \<Rightarrow> None | Suc m \<Rightarrow> Some (Inr (Some m))))"

definition sem_post :: "nat option \<Rightarrow> (error + nat option) option" where
  "sem_post l =
     (case l of None \<Rightarrow> Some (Inl InvalidSemaphore) | Some n \<Rightarrow> Some (Inr (Some (Suc n))))"

definition sem_destroy :: "nat option \<Rightarrow> (error + nat option) option" where
  "sem_destroy l =
     (case l of None \<Rightarrow> Some (Inl InvalidSemaphore) | Some n \<Rightarrow> Some (Inr None))"

definition STACK_SIZE :: nat where
  "STACK_SIZE = 16384"

text \<open>\<open>swapcontext\<close> and \<open>setcontext\<close> need live contexts.\<close>

definition live_context :: "(addr \<rightharpoonup> ucontext_t) \<Rightarrow> addr option \<Rightarrow> error + addr" where
  "live_context cs p =
     (case p of
        None \<Rightarrow> Inl NullPointer
      | Some c \<Rightarrow> (case cs c of None \<Rightarrow> Inl InvalidPointer | Some u \<Rightarrow> Inr c))"

definition swapcontext ::
  "(addr \<rightharpoonup> ucontext_t) \<Rightarrow> addr option \<Rightarrow> addr option \<Rightarrow> error + outcome" where
  "swapcontext cs oucp ucp =
     andThen (live_context cs oucp) (\<lambda>a. andThen (live_context cs ucp) (\<lambda>b. Inr (Switched a b)))"

definition setcontext :: "(addr \<rightharpoonup> ucontext_t) \<Rightarrow> addr option \<Rightarrow> error + outcome" where
  "setcontext cs ucp = andThen (live_context cs ucp) (\<lambda>b. Inr (Jumped b))"

text \<open>\<open>system_init\<close>. The argument is what \<open>malloc\<close> answers: \<open>NULL\<close>, or a block whose
  contents are whatever the allocator left there. Only \<open>size\<close> is written.\<close>

definition system_init :: "queue_t option \<Rightarrow> world \<Rightarrow> (error + world) option" where
  "system_init m_queue w =
     (case m_queue of
        None \<Rightarrow> Some (Inl NullPointer)
      | Some junk \<Rightarrow> Some (Inr (w\<lparr>thread_queue := Some (junk\<lparr>size_q := 0\<rparr>), lock := Some 1\<rparr>)))"

text \<open>\<open>uthread_create\<close>. The answers of its three calls of \<open>malloc\<close> are arguments: the
  block of the record (with the contents the allocator left in it), the block of the
  context and the block of the stack. \<open>getcontext\<close> and \<open>makecontext\<close> belong to the C
  library: here they fill the context and return, whatever the stack pointer is. A
  library whose \<open>makecontext\<close> writes to the stack faults on a null stack instead.\<close>

definition uthread_create ::
  "nat \<Rightarrow> int \<Rightarrow> (addr \<times> uthread_t) option \<Rightarrow> addr option \<Rightarrow> addr option \<Rightarrow> world
     \<Rightarrow> (error + outcome \<times> world) option" where
  "uthread_create f p m_thread m_context m_stack w =
     (case m_thread of
        None \<Rightarrow> Some (Inr (Returned (- 1), w))
      | Some (thread, junk) \<Rightarrow>
          let w1 = w\<lparr>nodes := (nodes w)
                      (thread \<mapsto> junk\<lparr>priority := p, func := f, context_n := m_context\<rparr>)\<rparr> in
          (case m_context of
             None \<Rightarrow> Some (Inr (Returned (- 1), w1))
           | Some c \<Rightarrow>
               let w2 = w1\<lparr>contexts := (contexts w1)
                            (c \<mapsto> \<lparr>ss_sp = m_stack, ss_size = STACK_SIZE, entry = Some f\<rparr>),
                          stacks := (case m_stack of None \<Rightarrow> stacks w1
                                     | Some s \<Rightarrow> insert s (stacks w1))\<rparr> in
               andThenP (sem_wait (lock w2)) (\<lambda>l1.
               (case thread_queue w2 of
                  None \<Rightarrow> Some (Inl NullPointer)
                | Some q \<Rightarrow>
                    andThenP (Some (add (nodes w2, q) (Some thread))) (\<lambda>(h1, q1).
                    andThenP (sem_post l1) (\<lambda>l2.
                    Some (Inr (Returned 0,
                      w2\<lparr>nodes := h1, thread_queue := Some q1, lock := l2\<rparr>))))))))"

text \<open>\<open>uthread_yield\<close>.\<close>

definition uthread_yield :: "int \<Rightarrow> world \<Rightarrow> (error + outcome \<times> world) option" where
  "uthread_yield p w =
     andThenP (sem_wait (lock w)) (\<lambda>l1.
     (case thread_queue w of
        None \<Rightarrow> Some (Inl NullPointer)
      | Some q \<Rightarrow>
          if size_q q = 0 then
            andThenP (sem_post l1) (\<lambda>l2. Some (Inr (Returned (- 1), w\<lparr>lock := l2\<rparr>)))
          else
            andThenP (Some (set_priority (nodes w) (active q) p)) (\<lambda>h1.
            andThenP (get_priority_thread (h1, q)) (\<lambda>(thread, h2, q2).
            let save = active q2 in
            andThenP (Some (add (h2, q2) save)) (\<lambda>(h3, q3).
            let q4 = q3\<lparr>active := thread\<rparr> in
            andThenP (sem_post l1) (\<lambda>l2.
            andThenP (Some (deref h3 save)) (\<lambda>sn.
            andThenP (Some (deref h3 thread)) (\<lambda>tn.
            andThenP (Some (swapcontext (contexts w) (context_n sn) (context_n tn))) (\<lambda>out.
            Some (Inr (out, w\<lparr>nodes := h3, thread_queue := Some q4, lock := l2\<rparr>)))))))))))"

text \<open>\<open>cleanup_queue\<close>, called on \<open>thread_queue\<close>.\<close>

definition cleanup_queue :: "world \<Rightarrow> (error + world) option" where
  "cleanup_queue w =
     (case thread_queue w of
        None \<Rightarrow> Some (Inl NullPointer)
      | Some q \<Rightarrow>
          andThenP (cleanup_loop (nodes w) (head q)) (\<lambda>h1.
          andThenP (Some (free_node h1 (active q))) (\<lambda>h2.
          Some (Inr (w\<lparr>nodes := h2, thread_queue := None\<rparr>)))))"

text \<open>\<open>uthread_exit\<close>.\<close>

definition uthread_exit :: "world \<Rightarrow> (error + outcome \<times> world) option" where
  "uthread_exit w =
     andThenP (sem_wait (lock w)) (\<lambda>l1.
     (case thread_queue w of
        None \<Rightarrow> Some (Inl NullPointer)
      | Some q \<Rightarrow>
          if size_q q = 0 then
            andThenP (sem_post l1) (\<lambda>l2.
            andThenP (cleanup_queue (w\<lparr>lock := l2\<rparr>)) (\<lambda>w1.
            andThenP (sem_destroy (lock w1)) (\<lambda>l3.
            Some (Inr (Exited 0, w1\<lparr>lock := l3\<rparr>)))))
          else
            andThenP (get_priority_thread (nodes w, q)) (\<lambda>(thread, h1, q1).
            andThenP (Some (free_node h1 (active q1))) (\<lambda>h2.
            let q2 = q1\<lparr>active := thread\<rparr> in
            andThenP (sem_post l1) (\<lambda>l2.
            andThenP (Some (deref h2 thread)) (\<lambda>tn.
            andThenP (Some (setcontext (contexts w) (context_n tn))) (\<lambda>out.
            Some (Inr (out, w\<lparr>nodes := h2, thread_queue := Some q2, lock := l2\<rparr>)))))))))"

text \<open>The process before \<open>system_init\<close>: nothing is allocated, the globals are zero.\<close>

definition boot :: world where
  "boot = \<lparr>nodes = Map.empty, contexts = Map.empty, stacks = {}, thread_queue = None,
            lock = None\<rparr>"

section \<open>The ring as a list\<close>

text \<open>The queue is described by the list of the ready records in the order in which the
  search loop meets them: the head first, then along \<open>prev\<close>. The fields of a live
  record are read through the store.\<close>

definition prev_of :: "heap \<Rightarrow> addr \<Rightarrow> addr option" where
  "prev_of h a = (case h a of None \<Rightarrow> None | Some n \<Rightarrow> prev_n n)"

definition next_of :: "heap \<Rightarrow> addr \<Rightarrow> addr option" where
  "next_of h a = (case h a of None \<Rightarrow> None | Some n \<Rightarrow> next_n n)"

text \<open>The priority of a live record.\<close>

definition prio_of :: "heap \<Rightarrow> addr \<Rightarrow> int" where
  "prio_of h a = priority (the (h a))"

text \<open>\<open>b\<close> is the \<open>prev\<close> of \<open>a\<close> and \<open>a\<close> is the \<open>next\<close> of \<open>b\<close>; both are live.\<close>

definition linked :: "heap \<Rightarrow> addr \<Rightarrow> addr \<Rightarrow> bool" where
  "linked h a b = (prev_of h a = Some b \<and> next_of h b = Some a)"

text \<open>From \<open>a\<close> along \<open>prev\<close> through the records of the list to \<open>b\<close>, every step
  linked in both directions.\<close>

fun chain :: "heap \<Rightarrow> addr \<Rightarrow> addr list \<Rightarrow> addr \<Rightarrow> bool" where
  "chain h a [] b = linked h a b"
| "chain h a (x # xs) b = (linked h a x \<and> chain h x xs b)"

text \<open>The records of the list, all different, form one circle.\<close>

definition ring :: "heap \<Rightarrow> addr list \<Rightarrow> bool" where
  "ring h xs = (case xs of [] \<Rightarrow> True | x # r \<Rightarrow> distinct xs \<and> chain h x r x)"

text \<open>The queue structure describes the ring: \<open>size\<close> is its length and \<open>head\<close> its
  first record. Nothing is said of \<open>head\<close> while the ring is empty.\<close>

definition queue_ring :: "heap \<Rightarrow> queue_t \<Rightarrow> addr list \<Rightarrow> bool" where
  "queue_ring h q xs =
     (size_q q = int (length xs) \<and> ring h xs \<and>
      (case xs of [] \<Rightarrow> True | x # r \<Rightarrow> head q = Some x))"

text \<open>What a record holds beside its links.\<close>

definition payload :: "heap \<Rightarrow> addr \<Rightarrow> (int \<times> nat \<times> addr option) option" where
  "payload h a = map_option (\<lambda>n. (priority n, func n, context_n n)) (h a)"

text \<open>The record the search loop keeps: the running best over the list, replaced only
  by a strictly smaller priority.\<close>

fun first_min :: "(addr \<Rightarrow> int) \<Rightarrow> addr \<Rightarrow> addr list \<Rightarrow> addr" where
  "first_min f b [] = b"
| "first_min f b (y # ys) = first_min f (if f y < f b then y else b) ys"

text \<open>The context of a live record, when that context is live too.\<close>

definition ctx_of :: "world \<Rightarrow> addr \<Rightarrow> addr option" where
  "ctx_of w a =
     (case nodes w a of
        None \<Rightarrow> None
      | Some n \<Rightarrow>
          (case context_n n of
             None \<Rightarrow> None
           | Some c \<Rightarrow> (case contexts w c of None \<Rightarrow> None | Some u \<Rightarrow> Some c)))"

section \<open>The ring invariant\<close>

text \<open>Following one link field \<open>k\<close> times from a pointer: the records visited, in order,
  and the pointer reached. \<open>None\<close> when a null pointer or a dead record is met on the
  way.\<close>

fun walk ::
  "(uthread_t \<Rightarrow> addr option) \<Rightarrow> heap \<Rightarrow> nat \<Rightarrow> addr option \<Rightarrow> (addr list \<times> addr option) option"
where
  "walk f h 0 p = Some ([], p)"
| "walk f h (Suc k) p =
     (case p of
        None \<Rightarrow> None
      | Some a \<Rightarrow>
          (case h a of
             None \<Rightarrow> None
           | Some n \<Rightarrow>
               (case walk f h k (f n) of
                  None \<Rightarrow> None
                | Some (ys, e) \<Rightarrow> Some (a # ys, e))))"

text \<open>The ready records: those met from \<open>head\<close> along \<open>prev\<close> in \<open>size\<close> steps.\<close>

definition ready :: "heap \<Rightarrow> queue_t \<Rightarrow> addr list" where
  "ready h q =
     (if size_q q \<le> 0 then []
      else (case walk prev_n h (nat (size_q q)) (head q) of
              None \<Rightarrow> []
            | Some (xs, e) \<Rightarrow> xs))"

text \<open>The invariant of the ring, in the words of the data model: \<open>size\<close> steps along
  \<open>prev\<close> from \<open>head\<close> visit \<open>size\<close> different records and come back to \<open>head\<close>, and
  \<open>size\<close> steps along \<open>next\<close> from \<open>head\<close> visit the same records the other way round
  and come back to \<open>head\<close>. An empty ring has \<open>size\<close> 0.\<close>

definition ring_invariant :: "heap \<Rightarrow> queue_t \<Rightarrow> bool" where
  "ring_invariant h q =
     (0 \<le> size_q q \<and>
      (size_q q = 0 \<or>
       (case walk prev_n h (nat (size_q q)) (head q) of
          None \<Rightarrow> False
        | Some (xs, e) \<Rightarrow>
            e = head q \<and> distinct xs \<and>
            walk next_n h (nat (size_q q)) (head q) = Some (hd xs # rev (tl xs), head q))))"

section \<open>Sample states\<close>

text \<open>Three ready records 1, 2 and 3, inserted in this order, with priorities 5, 3 and 3;
  record 4, of priority 9, is running.\<close>

definition ex_nodes :: heap where
  "ex_nodes =
     [1 \<mapsto> \<lparr>priority = 5, func = 1, context_n = Some 21, next_n = Some 3, prev_n = Some 2\<rparr>,
      2 \<mapsto> \<lparr>priority = 3, func = 2, context_n = Some 22, next_n = Some 1, prev_n = Some 3\<rparr>,
      3 \<mapsto> \<lparr>priority = 3, func = 3, context_n = Some 23, next_n = Some 2, prev_n = Some 1\<rparr>,
      4 \<mapsto> \<lparr>priority = 9, func = 4, context_n = Some 24, next_n = None, prev_n = None\<rparr>]"

definition ex_queue :: queue_t where
  "ex_queue = \<lparr>head = Some 1, size_q = 3, active = Some 4\<rparr>"

definition ex_contexts :: "addr \<rightharpoonup> ucontext_t" where
  "ex_contexts =
     [21 \<mapsto> \<lparr>ss_sp = Some 31, ss_size = STACK_SIZE, entry = Some 1\<rparr>,
      22 \<mapsto> \<lparr>ss_sp = Some 32, ss_size = STACK_SIZE, entry = Some 2\<rparr>,
      23 \<mapsto> \<lparr>ss_sp = Some 33, ss_size = STACK_SIZE, entry = Some 3\<rparr>,
      24 \<mapsto> \<lparr>ss_sp = Some 34, ss_size = STACK_SIZE, entry = Some 4\<rparr>]"

definition ex_world :: world where
  "ex_world = \<lparr>nodes = ex_nodes, contexts = ex_contexts, stacks = {31, 32, 33, 34},
                thread_queue = Some ex_queue, lock = Some 1\<rparr>"

text \<open>An initialised system with nothing ready.\<close>

definition ex_idle :: queue_t where
  "ex_idle = \<lparr>head = None, size_q = 0, active = Some 4\<rparr>"

definition ex_idle_world :: world where
  "ex_idle_world = \<lparr>nodes = [4 \<mapsto> \<lparr>priority = 9, func = 4, context_n = Some 24,
                                   next_n = None, prev_n = None\<rparr>],
                     contexts = [24 \<mapsto> \<lparr>ss_sp = Some 34, ss_size = STACK_SIZE, entry = Some 4\<rparr>],
                     stacks = {34}, thread_queue = Some ex_idle, lock = Some 1\<rparr>"

text \<open>A block as \<open>malloc\<close> may hand it out for a record.\<close>

definition ex_junk :: uthread_t where
  "ex_junk = \<lparr>priority = 0, func = 0, context_n = None, next_n = None, prev_n = None\<rparr>"

text \<open>Two blocks as \<open>malloc\<close> may hand them out for the queue: one filled with zeros, one
  whose \<open>active\<close> field holds an address that is no block.\<close>

definition ex_zero_block :: queue_t where
  "ex_zero_block = \<lparr>head = None, size_q = 0, active = None\<rparr>"

definition ex_stale_block :: queue_t where
  "ex_stale_block = \<lparr>head = None, size_q = 7, active = Some 99\<rparr>"

section \<open>Properties of the ring\<close>

lemma chain_snoc: "chain h a (xs @ [l]) b = (chain h a xs l \<and> linked h l b)"
  by (induction xs arbitrary: a) auto

lemma chain_append: "chain h a (xs @ y # ys) b = (chain h a xs y \<and> chain h y ys b)"
  by (induction xs arbitrary: a) auto

lemma chain_cong:
  "\<forall>x\<in>set (a # xs). prev_of h' x = prev_of h x \<Longrightarrow>
   \<forall>x\<in>set (xs @ [b]). next_of h' x = next_of h x \<Longrightarrow>
   chain h' a xs b = chain h a xs b"
  by (induction xs arbitrary: a) (auto simp: linked_def)

lemma linked_live: "linked h a b \<Longrightarrow> (\<exists>n. h a = Some n) \<and> (\<exists>m. h b = Some m)"
  by (auto simp: linked_def prev_of_def next_of_def split: option.splits)

lemma chain_live: "chain h a xs b \<Longrightarrow> x \<in> set (a # xs) \<Longrightarrow> \<exists>n. h x = Some n"
  by (induction xs arbitrary: a) (auto dest: linked_live)

lemma ring_live: "ring h xs \<Longrightarrow> x \<in> set xs \<Longrightarrow> \<exists>n. h x = Some n"
  by (cases xs) (auto simp: ring_def dest: chain_live)

lemma ring_distinct: "ring h xs \<Longrightarrow> distinct xs"
  by (cases xs) (auto simp: ring_def)

lemma ring_rotate1: "ring h (x # xs) \<Longrightarrow> ring h (xs @ [x])"
  by (cases xs) (auto simp: ring_def chain_snoc)

lemma ring_rotate: "ring h (xs @ ys) \<Longrightarrow> ring h (ys @ xs)"
proof (induction xs arbitrary: ys)
  case Nil
  then show ?case by simp
next
  case (Cons x xs)
  from Cons.prems have "ring h ((xs @ ys) @ [x])"
    using ring_rotate1 [of h x "xs @ ys"] by simp
  then have "ring h (xs @ (ys @ [x]))" by simp
  then have "ring h ((ys @ [x]) @ xs)" by (rule Cons.IH)
  then show ?case by simp
qed

lemma prev_of_upd [simp]:
  "prev_of (h(a \<mapsto> m)) x = (if x = a then prev_n m else prev_of h x)"
  by (simp add: prev_of_def)

lemma next_of_upd [simp]:
  "next_of (h(a \<mapsto> m)) x = (if x = a then next_n m else next_of h x)"
  by (simp add: next_of_def)

lemma payload_upd:
  "h a = Some n \<Longrightarrow> priority m = priority n \<Longrightarrow> func m = func n \<Longrightarrow>
   context_n m = context_n n \<Longrightarrow> payload (h(a \<mapsto> m)) = payload h"
  by (auto simp: payload_def fun_eq_iff)

lemma set_next_live:
  "h a = Some n \<Longrightarrow> set_next h (Some a) v = Inr (h(a \<mapsto> n\<lparr>next_n := v\<rparr>))"
  by (simp add: set_next_def)

lemma set_prev_live:
  "h a = Some n \<Longrightarrow> set_prev h (Some a) v = Inr (h(a \<mapsto> n\<lparr>prev_n := v\<rparr>))"
  by (simp add: set_prev_def)

lemma deref_live: "h a = Some n \<Longrightarrow> deref h (Some a) = Inr n"
  by (simp add: deref_def)

lemma add_empty:
  assumes "queue_ring h q []" and "h item = Some n"
  shows "\<exists>h' q'. add (h, q) (Some item) = Inr (h', q') \<and> queue_ring h' q' [item] \<and>
           payload h' = payload h \<and> active q' = active q"
  using assms
  by (simp add: queue_ring_def add_def set_next_live set_prev_live ring_def linked_def
      payload_upd)

lemma add_single:
  assumes "queue_ring h q [x]" and "h item = Some n" and "item \<noteq> x"
  shows "\<exists>h' q'. add (h, q) (Some item) = Inr (h', q') \<and> queue_ring h' q' [x, item] \<and>
           payload h' = payload h \<and> active q' = active q"
proof -
  from assms(1) obtain m where m: "h x = Some m"
    by (auto simp: queue_ring_def dest: ring_live)
  from assms m show ?thesis
    by (simp add: queue_ring_def add_def set_next_live set_prev_live ring_def linked_def
        payload_upd)
qed

lemma add_many:
  assumes qr: "queue_ring h q (x # us @ [l])" and it: "h item = Some n"
    and fresh: "item \<notin> set (x # us @ [l])"
  shows "\<exists>h' q'. add (h, q) (Some item) = Inr (h', q') \<and>
           queue_ring h' q' ((x # us @ [l]) @ [item]) \<and>
           payload h' = payload h \<and> active q' = active q"
proof -
  from qr have sz: "size_q q \<noteq> 0" "size_q q \<noteq> 1" and hd: "head q = Some x"
    and dist: "distinct (x # us @ [l])" and ch: "chain h x us l" and lk: "linked h l x"
    by (auto simp: queue_ring_def ring_def chain_snoc)
  from lk obtain nx nl where nx: "h x = Some nx" and nl: "h l = Some nl"
    and nxt: "next_n nx = Some l"
    by (auto simp: linked_def next_of_def prev_of_def split: option.splits)
  from dist fresh have ne: "l \<noteq> x" "item \<noteq> l" "item \<noteq> x" by auto
  let ?h1 = "h(l \<mapsto> nl\<lparr>prev_n := Some item\<rparr>)"
  let ?h2 = "?h1(item \<mapsto> n\<lparr>next_n := Some l\<rparr>)"
  let ?h3 = "?h2(item \<mapsto> n\<lparr>next_n := Some l, prev_n := Some x\<rparr>)"
  let ?h4 = "?h3(x \<mapsto> nx\<lparr>next_n := Some item\<rparr>)"
  have run: "add (h, q) (Some item) = Inr (?h4, q\<lparr>size_q := size_q q + 1\<rparr>)"
    using sz hd nx nl nxt it ne
    by (simp add: add_def deref_live set_next_live set_prev_live)
  have pv: "\<forall>y\<in>set (x # us). prev_of ?h4 y = prev_of h y"
    using dist fresh nx by (auto simp: prev_of_def)
  have nv: "\<forall>y\<in>set (us @ [l]). next_of ?h4 y = next_of h y"
    using dist fresh nl by (auto simp: next_of_def)
  have ch4: "chain ?h4 x us l"
    using chain_cong [OF pv nv] ch by simp
  have l1: "linked ?h4 l item"
    using ne by (simp add: linked_def)
  have l2: "linked ?h4 item x"
    using ne by (simp add: linked_def)
  have pl: "payload ?h4 = payload h"
    using nx nl it ne by (auto simp: payload_def fun_eq_iff)
  have "queue_ring ?h4 (q\<lparr>size_q := size_q q + 1\<rparr>) ((x # us @ [l]) @ [item])"
    using qr dist fresh ch4 l1 l2
    by (simp add: queue_ring_def ring_def chain_append)
  with run pl show ?thesis by simp
qed

lemma add_ring:
  assumes "queue_ring h q xs" and "h item = Some n" and "item \<notin> set xs"
  shows "\<exists>h' q'. add (h, q) (Some item) = Inr (h', q') \<and> queue_ring h' q' (xs @ [item]) \<and>
           payload h' = payload h \<and> active q' = active q"
proof (cases xs)
  case Nil
  with assms add_empty show ?thesis by simp
next
  case (Cons x r)
  show ?thesis
  proof (cases r rule: rev_cases)
    case Nil
    with Cons assms add_single [of h q x item n] show ?thesis by simp
  next
    case (snoc us l)
    with Cons assms add_many [of h q x us l item n] show ?thesis by simp
  qed
qed

lemma first_min_split:
  "\<exists>us vs. b # ys = us @ first_min f b ys # vs \<and>
     (\<forall>u\<in>set us. f (first_min f b ys) < f u) \<and>
     (\<forall>v\<in>set vs. f (first_min f b ys) \<le> f v)"
proof (induction ys arbitrary: b)
  case Nil
  have "[b] = [] @ first_min f b [] # [] \<and> (\<forall>u\<in>set []. f (first_min f b []) < f u) \<and>
        (\<forall>v\<in>set []. f (first_min f b []) \<le> f v)"
    by simp
  then show ?case by blast
next
  case (Cons y ys)
  let ?m = "first_min f b (y # ys)"
  show ?case
  proof (cases "f y < f b")
    case True
    then have m: "?m = first_min f y ys" by simp
    from Cons.IH [of y] obtain us vs where
      sp: "y # ys = us @ first_min f y ys # vs"
      and lo: "\<forall>u\<in>set us. f (first_min f y ys) < f u"
      and hi: "\<forall>v\<in>set vs. f (first_min f y ys) \<le> f v"
      by blast
    have "f (first_min f y ys) \<le> f y"
    proof (cases us)
      case Nil
      from sp have "y # ys = first_min f y ys # vs"
        unfolding Nil by (simp only: append_Nil)
      then have "first_min f y ys = y" by (rule list.inject [THEN iffD1, THEN conjunct1, symmetric])
      then show ?thesis by simp
    next
      case (Cons u us')
      from sp have "y # ys = u # (us' @ first_min f y ys # vs)"
        unfolding Cons by (simp only: append_Cons)
      then have "u = y" by (rule list.inject [THEN iffD1, THEN conjunct1, symmetric])
      with lo Cons show ?thesis by simp
    qed
    with True have "f ?m < f b" using m by simp
    with sp lo hi m have
      "b # y # ys = (b # us) @ ?m # vs \<and> (\<forall>u\<in>set (b # us). f ?m < f u) \<and>
       (\<forall>v\<in>set vs. f ?m \<le> f v)"
      by simp
    then show ?thesis by blast
  next
    case False
    then have m: "?m = first_min f b ys" by simp
    from Cons.IH [of b] obtain us vs where
      sp: "b # ys = us @ first_min f b ys # vs"
      and lo: "\<forall>u\<in>set us. f (first_min f b ys) < f u"
      and hi: "\<forall>v\<in>set vs. f (first_min f b ys) \<le> f v"
      by blast
    show ?thesis
    proof (cases us)
      case Nil
      from sp have "b # ys = first_min f b ys # vs"
        unfolding Nil by (simp only: append_Nil)
      then have "first_min f b ys = b" and "vs = ys"
        by (rule list.inject [THEN iffD1, THEN conjunct1, symmetric],
            rule list.inject [THEN iffD1, THEN conjunct2, symmetric])
      with m hi False have
        "b # y # ys = [] @ ?m # (y # ys) \<and> (\<forall>u\<in>set []. f ?m < f u) \<and>
         (\<forall>v\<in>set (y # ys). f ?m \<le> f v)"
        by simp
      then show ?thesis by blast
    next
      case (Cons u us')
      from sp have "b # ys = u # (us' @ first_min f b ys # vs)"
        unfolding Cons by (simp only: append_Cons)
      then have u: "u = b" and ys: "ys = us' @ first_min f b ys # vs"
        by (rule list.inject [THEN iffD1, THEN conjunct1, symmetric],
            rule list.inject [THEN iffD1, THEN conjunct2])
      from lo Cons u have "f (first_min f b ys) < f b" by simp
      with False have "f (first_min f b ys) < f y" by simp
      with lo hi m Cons u ys have
        "b # y # ys = (b # y # us') @ ?m # vs \<and> (\<forall>u\<in>set (b # y # us'). f ?m < f u) \<and>
         (\<forall>v\<in>set vs. f ?m \<le> f v)"
        by simp
      then show ?thesis by blast
    qed
  qed
qed

lemma scan_chain:
  "chain h c ys b \<Longrightarrow> b \<notin> set ys \<Longrightarrow>
   scan h (Some b) (Some c) (Some pn) (prio_of h pn)
     = Some (Inr (Some (first_min (prio_of h) pn ys)))"
proof (induction ys arbitrary: c pn)
  case Nil
  then obtain n where "h c = Some n" and "prev_n n = Some b"
    by (auto simp: linked_def prev_of_def split: option.splits)
  then show ?case
    by (subst scan.simps) (simp add: deref_def)
next
  case (Cons y ys)
  from Cons.prems obtain n m where n: "h c = Some n" "prev_n n = Some y"
    and m: "h y = Some m" and ch: "chain h y ys b" and ne: "y \<noteq> b" "b \<notin> set ys"
    using chain_live [of h y ys b y]
    by (auto simp: linked_def prev_of_def split: option.splits)
  have pm: "priority m = prio_of h y" using m by (simp add: prio_of_def)
  show ?case
  proof (cases "prio_of h y < prio_of h pn")
    case True
    with n m ne pm Cons.IH [OF ch ne(2), of y] show ?thesis
      by (subst scan.simps) (simp add: deref_def)
  next
    case False
    with n m ne pm Cons.IH [OF ch ne(2), of pn] show ?thesis
      by (subst scan.simps) (simp add: deref_def)
  qed
qed

lemma unlink_heap:
  assumes rg: "ring h (p # y # r)"
  shows "\<exists>np h1 h2. h p = Some np \<and> prev_n np = Some y \<and>
           set_next h (Some y) (next_n np) = Inr h1 \<and> h1 p = Some np \<and>
           set_prev h1 (next_n np) (Some y) = Inr h2 \<and>
           ring h2 (y # r) \<and> payload h2 = payload h"
proof (cases r rule: rev_cases)
  case Nil
  with rg have ne: "p \<noteq> y" and l1: "linked h p y" and l2: "linked h y p"
    by (auto simp: ring_def)
  then obtain np ny where np: "h p = Some np" "prev_n np = Some y" "next_n np = Some y"
    and ny: "h y = Some ny"
    by (auto simp: linked_def prev_of_def next_of_def split: option.splits)
  let ?h1 = "h(y \<mapsto> ny\<lparr>next_n := Some y\<rparr>)"
  let ?h2 = "?h1(y \<mapsto> ny\<lparr>next_n := Some y, prev_n := Some y\<rparr>)"
  have "set_next h (Some y) (next_n np) = Inr ?h1"
    using np ny by (simp add: set_next_live)
  moreover have "?h1 p = Some np" using np ne by simp
  moreover have "set_prev ?h1 (next_n np) (Some y) = Inr ?h2"
    using np by (simp add: set_prev_def)
  moreover have "ring ?h2 (y # r)"
    using Nil by (simp add: ring_def linked_def)
  moreover have "payload ?h2 = payload h"
    using ny by (auto simp: payload_def fun_eq_iff)
  ultimately show ?thesis using np by blast
next
  case (snoc ws l)
  with rg have dist: "distinct (p # y # ws @ [l])" and l1: "linked h p y"
    and ch: "chain h y ws l" and l2: "linked h l p"
    by (auto simp: ring_def chain_snoc)
  then obtain np ny nl where np: "h p = Some np" "prev_n np = Some y" "next_n np = Some l"
    and ny: "h y = Some ny" and nl: "h l = Some nl"
    using chain_live [of h y ws l y]
    by (auto simp: linked_def prev_of_def next_of_def split: option.splits)
  from dist have ne: "p \<noteq> y" "p \<noteq> l" "y \<noteq> l" by auto
  let ?h1 = "h(y \<mapsto> ny\<lparr>next_n := Some l\<rparr>)"
  let ?h2 = "?h1(l \<mapsto> nl\<lparr>prev_n := Some y\<rparr>)"
  have pv: "\<forall>x\<in>set (y # ws). prev_of ?h2 x = prev_of h x"
    using dist ny by (auto simp: prev_of_def)
  have nv: "\<forall>x\<in>set (ws @ [l]). next_of ?h2 x = next_of h x"
    using dist nl by (auto simp: next_of_def)
  have ch2: "chain ?h2 y ws l"
    using chain_cong [OF pv nv] ch by simp
  have lk: "linked ?h2 l y"
    using ne by (simp add: linked_def)
  have "set_next h (Some y) (next_n np) = Inr ?h1"
    using np ny by (simp add: set_next_live)
  moreover have "?h1 p = Some np" using np ne by simp
  moreover have "set_prev ?h1 (next_n np) (Some y) = Inr ?h2"
    using np nl ne by (simp add: set_prev_def)
  moreover have "ring ?h2 (y # r)"
    using snoc dist ch2 lk by (simp add: ring_def chain_snoc)
  moreover have "payload ?h2 = payload h"
    using ny nl ne by (auto simp: payload_def fun_eq_iff)
  ultimately show ?thesis using np by blast
qed

lemma unlink_ring:
  assumes qr: "queue_ring h q (us @ p # vs)" and ne: "us @ vs \<noteq> []"
  shows "\<exists>h' q'. unlink h q (Some p) = Inr (Some p, h', q') \<and>
           queue_ring h' q' (us @ vs) \<and> payload h' = payload h \<and> active q' = active q"
proof -
  from qr have rg: "ring h (us @ p # vs)" and sz: "size_q q = int (length (us @ p # vs))"
    by (simp_all add: queue_ring_def)
  from rg have dist: "distinct (us @ p # vs)" by (rule ring_distinct)
  from rg have "ring h ((p # vs) @ us)" by (rule ring_rotate)
  moreover from ne obtain y r where yr: "vs @ us = y # r" by (cases "vs @ us") auto
  ultimately have "ring h (p # y # r)" by simp
  from unlink_heap [OF this] obtain np h1 h2 where
    np: "h p = Some np" "prev_n np = Some y"
    and s1: "set_next h (Some y) (next_n np) = Inr h1" and np1: "h1 p = Some np"
    and s2: "set_prev h1 (next_n np) (Some y) = Inr h2"
    and rg2: "ring h2 (y # r)" and pl: "payload h2 = payload h"
    by blast
  from rg2 yr have "ring h2 (vs @ us)" by simp
  then have rg3: "ring h2 (us @ vs)" by (rule ring_rotate)
  let ?q1 = "if Some p = head q then q\<lparr>head := prev_n np\<rparr> else q"
  have run: "unlink h q (Some p) = Inr (Some p, h2, ?q1\<lparr>size_q := size_q ?q1 - 1\<rparr>)"
    using np s1 np1 s2 by (simp add: unlink_def deref_live Let_def)
  have hd: "case us @ vs of [] \<Rightarrow> True | x # r \<Rightarrow> head ?q1 = Some x"
  proof (cases us)
    case Nil
    with qr have "head q = Some p" by (simp add: queue_ring_def)
    moreover from Nil yr have "vs = y # r" by simp
    ultimately show ?thesis using Nil np by simp
  next
    case (Cons u us')
    with qr have "head q = Some u" by (simp add: queue_ring_def)
    moreover from Cons dist have "u \<noteq> p" by auto
    ultimately show ?thesis using Cons by simp
  qed
  have "queue_ring h2 (?q1\<lparr>size_q := size_q ?q1 - 1\<rparr>) (us @ vs)"
    using sz rg3 hd by (simp add: queue_ring_def split: list.splits if_splits)
  with run pl show ?thesis by auto
qed

lemma get_empty:
  "queue_ring h q [] \<Longrightarrow> get_priority_thread (h, q) = Some (Inr (None, h, q))"
  by (simp add: queue_ring_def get_priority_thread_def)

lemma get_ring:
  assumes qr: "queue_ring h q xs" and ne: "xs \<noteq> []"
  shows "\<exists>us p vs h' q'. xs = us @ p # vs \<and>
           get_priority_thread (h, q) = Some (Inr (Some p, h', q')) \<and>
           (\<forall>u\<in>set us. prio_of h p < prio_of h u) \<and>
           (\<forall>v\<in>set vs. prio_of h p \<le> prio_of h v) \<and>
           queue_ring h' q' (us @ vs) \<and> payload h' = payload h \<and> active q' = active q"
proof -
  from ne obtain x r where xs: "xs = x # r" by (cases xs) auto
  show ?thesis
  proof (cases r)
    case Nil
    with qr xs have "get_priority_thread (h, q)
        = Some (Inr (Some x, h, q\<lparr>head := None, size_q := 0\<rparr>))"
      and "queue_ring h (q\<lparr>head := None, size_q := 0\<rparr>) []"
      by (simp_all add: queue_ring_def get_priority_thread_def ring_def)
    with xs Nil have
      "xs = [] @ x # [] \<and>
       get_priority_thread (h, q) = Some (Inr (Some x, h, q\<lparr>head := None, size_q := 0\<rparr>)) \<and>
       (\<forall>u\<in>set []. prio_of h x < prio_of h u) \<and>
       (\<forall>v\<in>set []. prio_of h x \<le> prio_of h v) \<and>
       queue_ring h (q\<lparr>head := None, size_q := 0\<rparr>) ([] @ []) \<and> payload h = payload h \<and>
       active (q\<lparr>head := None, size_q := 0\<rparr>) = active q"
      by simp
    then show ?thesis by blast
  next
    case (Cons y r')
    with qr xs have sz: "size_q q \<noteq> 0" "size_q q \<noteq> 1" and hd: "head q = Some x"
      and ch: "chain h x r x" and nin: "x \<notin> set r"
      by (auto simp: queue_ring_def ring_def)
    from ch obtain nx where nx: "h x = Some nx"
      using chain_live [of h x r x x] by auto
    then have px: "priority nx = prio_of h x" by (simp add: prio_of_def)
    let ?m = "first_min (prio_of h) x r"
    have sc: "scan h (Some x) (Some x) (Some x) (priority nx) = Some (Inr (Some ?m))"
      unfolding px by (rule scan_chain [OF ch nin])
    from first_min_split [of x r "prio_of h"] obtain us vs where
      sp: "x # r = us @ ?m # vs" and lo: "\<forall>u\<in>set us. prio_of h ?m < prio_of h u"
      and hi: "\<forall>v\<in>set vs. prio_of h ?m \<le> prio_of h v"
      by blast
    from sp Cons have "length (us @ ?m # vs) = Suc (Suc (length r'))"
      by (metis length_Cons)
    then have ne2: "us @ vs \<noteq> []" by auto
    from qr xs sp have "queue_ring h q (us @ ?m # vs)" by simp
    from unlink_ring [OF this ne2] obtain h' q' where
      ul: "unlink h q (Some ?m) = Inr (Some ?m, h', q')" and qr': "queue_ring h' q' (us @ vs)"
      and pl: "payload h' = payload h" and ac: "active q' = active q"
      by blast
    have "get_priority_thread (h, q) = Some (Inr (Some ?m, h', q'))"
      using sz hd nx sc ul by (simp add: get_priority_thread_def deref_live)
    with xs sp lo hi qr' pl ac show ?thesis by blast
  qed
qed

lemma ex_queue_ring: "queue_ring ex_nodes ex_queue [1, 2, 3]"
  by (simp add: queue_ring_def ring_def linked_def prev_of_def next_of_def ex_nodes_def
      ex_queue_def)

lemma ex_prio: "prio_of ex_nodes 1 = 5" "prio_of ex_nodes 2 = 3" "prio_of ex_nodes 3 = 3"
  by (simp_all add: prio_of_def ex_nodes_def)

section \<open>Selection of the highest priority\<close>

text \<open>
  C1. On every queue that describes a ring of ready records, \<open>get_priority_thread\<close>
  returns \<open>NULL\<close> and changes nothing when \<open>size\<close> is 0. Otherwise it returns a record
  of the ring whose priority is at most the priority of every record of the ring, and
  it leaves the ring without exactly this record: the other records stay, in their
  order, and no record's priority, function or context changes.
\<close>

theorem get_priority_thread_smallest:
  assumes qr: "queue_ring h q xs"
  shows "(size_q q = 0 \<longrightarrow> get_priority_thread (h, q) = Some (Inr (None, h, q))) \<and>
         (size_q q \<noteq> 0 \<longrightarrow>
            (\<exists>p h' q'. get_priority_thread (h, q) = Some (Inr (Some p, h', q')) \<and>
               p \<in> set xs \<and> (\<forall>b\<in>set xs. prio_of h p \<le> prio_of h b) \<and>
               queue_ring h' q' (remove1 p xs) \<and> payload h' = payload h \<and>
               active q' = active q))"
proof (intro conjI impI)
  assume "size_q q = 0"
  then show "get_priority_thread (h, q) = Some (Inr (None, h, q))"
    by (simp add: get_priority_thread_def)
next
  assume "size_q q \<noteq> 0"
  with qr have "xs \<noteq> []" by (auto simp: queue_ring_def)
  from get_ring [OF qr this] obtain us p vs h' q' where
    sp: "xs = us @ p # vs"
    and run: "get_priority_thread (h, q) = Some (Inr (Some p, h', q'))"
    and lo: "\<forall>u\<in>set us. prio_of h p < prio_of h u"
    and hi: "\<forall>v\<in>set vs. prio_of h p \<le> prio_of h v"
    and qr': "queue_ring h' q' (us @ vs)"
    and rest: "payload h' = payload h" "active q' = active q"
    by blast
  from qr have "ring h xs" by (simp add: queue_ring_def)
  then have "distinct xs" by (rule ring_distinct)
  with sp have "p \<notin> set us" by auto
  with sp have rm: "remove1 p xs = us @ vs" by (simp add: remove1_append)
  from sp lo hi have "\<forall>b\<in>set xs. prio_of h p \<le> prio_of h b" by auto
  with sp run qr' rest rm
  show "\<exists>p h' q'. get_priority_thread (h, q) = Some (Inr (Some p, h', q')) \<and>
          p \<in> set xs \<and> (\<forall>b\<in>set xs. prio_of h p \<le> prio_of h b) \<and>
          queue_ring h' q' (remove1 p xs) \<and> payload h' = payload h \<and> active q' = active q"
    by auto
qed

theorem get_priority_thread_smallest_witness:
  "queue_ring ex_nodes ex_queue [1, 2, 3] \<and> size_q ex_queue \<noteq> 0 \<and>
   (\<exists>p h' q'. get_priority_thread (ex_nodes, ex_queue) = Some (Inr (Some p, h', q')) \<and>
      p \<in> set [1, 2, 3] \<and> (\<forall>b\<in>set [1, 2, 3]. prio_of ex_nodes p \<le> prio_of ex_nodes b) \<and>
      queue_ring h' q' (remove1 p [1, 2, 3]) \<and> payload h' = payload ex_nodes \<and>
      active q' = active ex_queue) \<and>
   queue_ring ex_nodes ex_idle [] \<and> size_q ex_idle = 0 \<and>
   get_priority_thread (ex_nodes, ex_idle) = Some (Inr (None, ex_nodes, ex_idle))"
proof -
  have a: "queue_ring ex_nodes ex_queue [1, 2, 3]" by (rule ex_queue_ring)
  have b: "size_q ex_queue \<noteq> 0" by (simp add: ex_queue_def)
  have c: "queue_ring ex_nodes ex_idle []" by (simp add: queue_ring_def ring_def ex_idle_def)
  have d: "size_q ex_idle = 0" by (simp add: ex_idle_def)
  from get_priority_thread_smallest [OF a] get_priority_thread_smallest [OF c] a b c d
  show ?thesis by simp
qed

section \<open>Yield with nothing ready\<close>

text \<open>
  C4. In every state whose queue has \<open>size\<close> 0, with the semaphore free, \<open>uthread_yield\<close>
  returns -1 at once, without a context switch, and the state after the call is the
  state before it: \<open>size\<close> is still 0 and \<open>active\<close> is unchanged.
\<close>

theorem uthread_yield_empty:
  assumes "thread_queue w = Some q" and "size_q q = 0" and "lock w = Some (Suc n)"
  shows "uthread_yield p w = Some (Inr (Returned (- 1), w))"
  using assms by (simp add: uthread_yield_def sem_wait_def sem_post_def)

theorem uthread_yield_empty_witness:
  "thread_queue ex_idle_world = Some ex_idle \<and> size_q ex_idle = 0 \<and>
   lock ex_idle_world = Some (Suc 0) \<and>
   uthread_yield 3 ex_idle_world = Some (Inr (Returned (- 1), ex_idle_world))"
proof -
  have a: "thread_queue ex_idle_world = Some ex_idle" by (simp add: ex_idle_world_def)
  have b: "size_q ex_idle = 0" by (simp add: ex_idle_def)
  have c: "lock ex_idle_world = Some (Suc 0)" by (simp add: ex_idle_world_def)
  from uthread_yield_empty [OF a b c, of 3] a b c show ?thesis by simp
qed

section \<open>Spawn and the allocator\<close>

lemma uthread_create_no_record:
  "uthread_create f p None m_context m_stack w = Some (Inr (Returned (- 1), w))"
  by (simp add: uthread_create_def)

lemma uthread_create_no_context:
  "uthread_create f p (Some (t, junk)) None m_stack w
     = Some (Inr (Returned (- 1),
         w\<lparr>nodes := (nodes w)(t \<mapsto> junk\<lparr>priority := p, func := f, context_n := None\<rparr>)\<rparr>))"
  by (simp add: uthread_create_def)

text \<open>
  C3. \<open>uthread_create\<close> tests the result of \<open>malloc\<close> for the record and for the context,
  not for the stack. When the record and the context are obtained and the stack is not,
  no path of the call returns -1: the null stack goes to \<open>makecontext\<close>, and where that
  returns, the call returns 0 and the record is in the queue, its context bound to a
  null stack: here on the initialised system with nothing ready, whose queue then has
  \<open>size\<close> 1.
\<close>

theorem uthread_create_stack_unchecked:
  "uthread_create 7 2 (Some (5, ex_junk)) (Some 25) None ex_idle_world
     = Some (Inr (Returned 0,
         \<lparr>nodes = [4 \<mapsto> \<lparr>priority = 9, func = 4, context_n = Some 24,
                           next_n = None, prev_n = None\<rparr>,
                   5 \<mapsto> \<lparr>priority = 2, func = 7, context_n = Some 25,
                           next_n = Some 5, prev_n = Some 5\<rparr>],
           contexts = [24 \<mapsto> \<lparr>ss_sp = Some 34, ss_size = STACK_SIZE, entry = Some 4\<rparr>,
                       25 \<mapsto> \<lparr>ss_sp = None, ss_size = STACK_SIZE, entry = Some 7\<rparr>],
           stacks = {34},
           thread_queue = Some \<lparr>head = Some 5, size_q = 1, active = Some 4\<rparr>,
           lock = Some 1\<rparr>))"
  by (simp add: uthread_create_def ex_idle_world_def ex_idle_def ex_junk_def sem_wait_def
      sem_post_def add_def set_next_def set_prev_def)

section \<open>The first running thread\<close>

text \<open>
  C9. \<open>system_init\<close> writes \<open>size\<close> and nothing else of the queue: \<open>active\<close> keeps what
  the allocator left in the block, and no other function sets it before the first
  scheduling call. With a block of zeros, the first \<open>uthread_yield\<close> of the initial
  thread writes the priority through a null \<open>active\<close>. With a stale address in the
  block, the first \<open>uthread_exit\<close> of the initial thread frees that address.
\<close>

theorem initial_thread_has_no_active_record:
  "system_init (Some ex_stale_block) boot
     = Some (Inr \<lparr>nodes = Map.empty, contexts = Map.empty, stacks = {},
                  thread_queue = Some \<lparr>head = None, size_q = 0, active = Some 99\<rparr>,
                  lock = Some 1\<rparr>) \<and>
   andThenP (system_init (Some ex_zero_block) boot) (\<lambda>w0.
     andThenP (uthread_create 1 2 (Some (1, ex_junk)) (Some 21) (Some 31) w0) (\<lambda>(r, w1).
       uthread_yield 1 w1)) = Some (Inl NullPointer) \<and>
   andThenP (system_init (Some ex_stale_block) boot) (\<lambda>w0.
     andThenP (uthread_create 1 2 (Some (1, ex_junk)) (Some 21) (Some 31) w0) (\<lambda>(r, w1).
       uthread_exit w1)) = Some (Inl InvalidFree)"
  by (simp add: system_init_def boot_def ex_stale_block_def ex_zero_block_def ex_junk_def
      uthread_create_def sem_wait_def sem_post_def add_def set_next_def set_prev_def
      uthread_yield_def set_priority_def uthread_exit_def get_priority_thread_def
      free_node_def)

section \<open>Teardown\<close>

lemma cleanup_loop_null: "cleanup_loop h None = Some (Inr h)"
  by (subst cleanup_loop.simps) simp










section \<open>Exit of the last thread\<close>

text \<open>
  C8, as the code has it. When \<open>uthread_exit\<close> finds \<open>size\<close> 0, with \<open>head\<close> null as the
  removal of the last ready record leaves it, with the semaphore free and \<open>active\<close> null
  or a live record, the process exits with status 0: the record of the active thread
  and the queue structure are freed and the semaphore is destroyed. The contexts and
  the stacks are left as they were: no context and no stack is freed, the active
  record's included.
\<close>

theorem uthread_exit_last:
  assumes "thread_queue w = Some q" and "size_q q = 0" and "head q = None"
    and "lock w = Some (Suc n)"
    and "active q = None \<or> (\<exists>a na. active q = Some a \<and> nodes w a = Some na)"
  shows "uthread_exit w
           = Some (Inr (Exited 0,
               w\<lparr>nodes := (case active q of None \<Rightarrow> nodes w
                            | Some a \<Rightarrow> (nodes w)(a := None)),
                 thread_queue := None, lock := None\<rparr>))"
  using assms
  by (auto simp: uthread_exit_def sem_wait_def sem_post_def sem_destroy_def
      cleanup_queue_def cleanup_loop_null free_node_def)

theorem uthread_exit_last_witness:
  "thread_queue ex_idle_world = Some ex_idle \<and> size_q ex_idle = 0 \<and> head ex_idle = None \<and>
   lock ex_idle_world = Some (Suc 0) \<and> active ex_idle = Some 4 \<and>
   uthread_exit ex_idle_world
     = Some (Inr (Exited 0,
         ex_idle_world\<lparr>nodes := (nodes ex_idle_world)(4 := None),
                        thread_queue := None, lock := None\<rparr>))"
proof -
  have a: "thread_queue ex_idle_world = Some ex_idle" by (simp add: ex_idle_world_def)
  have b: "size_q ex_idle = 0" "head ex_idle = None" "active ex_idle = Some 4"
    by (simp_all add: ex_idle_def)
  have c: "lock ex_idle_world = Some (Suc 0)" by (simp add: ex_idle_world_def)
  have d: "active ex_idle = None \<or>
           (\<exists>a na. active ex_idle = Some a \<and> nodes ex_idle_world a = Some na)"
    by (simp add: ex_idle_def ex_idle_world_def)
  from uthread_exit_last [OF a b(1) b(2) c d] a b c show ?thesis by simp
qed

text \<open>The last thread, record 4, exits: its record is freed, its context 24 and its
  stack 34 are still allocated when the process ends.\<close>

theorem last_exit_keeps_context:
  "uthread_exit ex_idle_world
     = Some (Inr (Exited 0,
         \<lparr>nodes = Map.empty,
           contexts = [24 \<mapsto> \<lparr>ss_sp = Some 34, ss_size = STACK_SIZE, entry = Some 4\<rparr>],
           stacks = {34}, thread_queue = None, lock = None\<rparr>))"
  by (simp add: uthread_exit_def ex_idle_world_def ex_idle_def sem_wait_def sem_post_def
      sem_destroy_def cleanup_queue_def cleanup_loop_null free_node_def)

section \<open>Yield and exit on a ring that is not empty\<close>

lemma ring_cong:
  assumes "\<forall>x\<in>set xs. prev_of h' x = prev_of h x \<and> next_of h' x = next_of h x"
  shows "ring h' xs = ring h xs"
proof (cases xs)
  case Nil
  then show ?thesis by (simp add: ring_def)
next
  case (Cons x r)
  with assms have "chain h' x r x = chain h x r x"
    by (intro chain_cong) auto
  with Cons show ?thesis by (simp add: ring_def)
qed

lemma queue_ring_set_priority:
  "queue_ring h q xs \<Longrightarrow> h a = Some na \<Longrightarrow> queue_ring (h(a \<mapsto> na\<lparr>priority := p\<rparr>)) q xs"
  using ring_cong [of xs "h(a \<mapsto> na\<lparr>priority := p\<rparr>)" h]
  by (simp add: queue_ring_def prev_of_def next_of_def)

lemma queue_ring_free:
  "queue_ring h q xs \<Longrightarrow> a \<notin> set xs \<Longrightarrow> queue_ring (h(a := None)) q xs"
  using ring_cong [of xs "h(a := None)" h]
  by (auto simp: queue_ring_def prev_of_def next_of_def)

lemma queue_ring_active: "queue_ring h (q\<lparr>active := t\<rparr>) xs = queue_ring h q xs"
  by (cases xs) (simp_all add: queue_ring_def)

lemma payload_prio: "payload h' = payload h \<Longrightarrow> prio_of h' x = prio_of h x"
proof -
  assume "payload h' = payload h"
  then have "payload h' x = payload h x" by simp
  then show ?thesis
    by (cases "h x"; cases "h' x") (auto simp: payload_def prio_of_def)
qed

lemma payload_live:
  "payload h' = payload h \<Longrightarrow> h x = Some n \<Longrightarrow>
   \<exists>n'. h' x = Some n' \<and> context_n n' = context_n n \<and> priority n' = priority n"
proof -
  assume "payload h' = payload h" and n: "h x = Some n"
  then have "payload h' x = payload h x" by simp
  with n show ?thesis by (cases "h' x") (auto simp: payload_def)
qed

lemma ctx_of_live:
  "ctx_of w a = Some c \<Longrightarrow>
   \<exists>n u. nodes w a = Some n \<and> context_n n = Some c \<and> contexts w c = Some u"
  by (auto simp: ctx_of_def split: option.splits)

lemma yield_run:
  assumes lk: "lock w = Some (Suc n)" and tq: "thread_queue w = Some q"
    and qr: "queue_ring (nodes w) q xs" and ne: "xs \<noteq> []"
    and ac: "active q = Some a" and out: "a \<notin> set xs"
    and cx: "\<forall>x\<in>set (a # xs). ctx_of w x \<noteq> None"
  shows "\<exists>us t vs ca ct h' q'. xs = us @ t # vs \<and>
           (\<forall>u\<in>set us. prio_of (nodes w) t < prio_of (nodes w) u) \<and>
           (\<forall>v\<in>set vs. prio_of (nodes w) t \<le> prio_of (nodes w) v) \<and>
           ctx_of w a = Some ca \<and> ctx_of w t = Some ct \<and>
           uthread_yield p w
             = Some (Inr (Switched ca ct, w\<lparr>nodes := h', thread_queue := Some q'\<rparr>)) \<and>
           active q' = Some t \<and> queue_ring h' q' (us @ vs @ [a]) \<and>
           prio_of h' a = p \<and> (\<forall>x\<in>set xs. prio_of h' x = prio_of (nodes w) x)"
proof -
  let ?h = "nodes w"
  from cx obtain ca where ca: "ctx_of w a = Some ca" by auto
  from ctx_of_live [OF ca] obtain na ua where
    na: "?h a = Some na" "context_n na = Some ca" "contexts w ca = Some ua"
    by blast
  let ?h1 = "?h(a \<mapsto> na\<lparr>priority := p\<rparr>)"
  have sp: "set_priority ?h (active q) p = Inr ?h1"
    using ac na by (simp add: set_priority_def)
  have qr1: "queue_ring ?h1 q xs"
    using qr na(1) by (rule queue_ring_set_priority)
  have pr1: "\<forall>x\<in>set xs. prio_of ?h1 x = prio_of ?h x"
    using out by (auto simp: prio_of_def)
  from get_ring [OF qr1 ne] obtain us t vs h2 q2 where
    xs: "xs = us @ t # vs"
    and get: "get_priority_thread (?h1, q) = Some (Inr (Some t, h2, q2))"
    and lo: "\<forall>u\<in>set us. prio_of ?h1 t < prio_of ?h1 u"
    and hi: "\<forall>v\<in>set vs. prio_of ?h1 t \<le> prio_of ?h1 v"
    and qr2: "queue_ring h2 q2 (us @ vs)"
    and pl2: "payload h2 = payload ?h1" and ac2: "active q2 = active q"
    by blast
  from payload_live [OF pl2, of a] obtain na2 where na2: "h2 a = Some na2" by auto
  from out xs have out2: "a \<notin> set (us @ vs)" and ta: "t \<noteq> a" by auto
  from add_ring [OF qr2 na2 out2] obtain h3 q3 where
    add: "add (h2, q2) (Some a) = Inr (h3, q3)"
    and qr3: "queue_ring h3 q3 ((us @ vs) @ [a])"
    and pl3: "payload h3 = payload h2" and ac3: "active q3 = active q2"
    by blast
  from pl2 pl3 have pl: "payload h3 = payload ?h1" by simp
  from payload_live [OF pl, of a] obtain sn where
    sn: "h3 a = Some sn" "context_n sn = Some ca" "priority sn = p"
    using na by auto
  from cx xs obtain ct where ct: "ctx_of w t = Some ct" by auto
  from ctx_of_live [OF ct] obtain nt ut where
    nt: "?h t = Some nt" "context_n nt = Some ct" "contexts w ct = Some ut"
    by blast
  from nt ta have "?h1 t = Some nt" by simp
  from payload_live [OF pl this] obtain tn where
    tn: "h3 t = Some tn" "context_n tn = Some ct"
    using nt by auto
  have sw: "swapcontext (contexts w) (Some ca) (Some ct) = Inr (Switched ca ct)"
    using na nt by (simp add: swapcontext_def live_context_def)
  from qr ne tq have sz: "size_q q \<noteq> 0" by (auto simp: queue_ring_def)
  have wq: "w\<lparr>nodes := h3, thread_queue := Some (q3\<lparr>active := Some t\<rparr>), lock := Some (Suc n)\<rparr>
              = w\<lparr>nodes := h3, thread_queue := Some (q3\<lparr>active := Some t\<rparr>)\<rparr>"
    using lk by simp
  have run: "uthread_yield p w
      = Some (Inr (Switched ca ct, w\<lparr>nodes := h3, thread_queue := Some (q3\<lparr>active := Some t\<rparr>)\<rparr>))"
    using lk tq sz sp get ac ac2 add sn tn sw wq
    by (simp add: uthread_yield_def sem_wait_def sem_post_def deref_live)
  have pa: "prio_of h3 a = p" using sn by (simp add: prio_of_def)
  have px: "\<forall>x\<in>set xs. prio_of h3 x = prio_of ?h x"
    using pr1 payload_prio [OF pl] by simp
  have lo': "\<forall>u\<in>set us. prio_of ?h t < prio_of ?h u"
    using lo pr1 xs by simp
  have hi': "\<forall>v\<in>set vs. prio_of ?h t \<le> prio_of ?h v"
    using hi pr1 xs by simp
  have qr4: "queue_ring h3 (q3\<lparr>active := Some t\<rparr>) (us @ vs @ [a])"
    using qr3 by (simp add: queue_ring_active)
  have "active (q3\<lparr>active := Some t\<rparr>) = Some t" by simp
  with xs lo' hi' ca ct run qr4 pa px show ?thesis by blast
qed

lemma exit_run:
  assumes lk: "lock w = Some (Suc n)" and tq: "thread_queue w = Some q"
    and qr: "queue_ring (nodes w) q xs" and ne: "xs \<noteq> []"
    and ac: "active q = Some a" and na: "nodes w a = Some na" and out: "a \<notin> set xs"
    and cx: "\<forall>x\<in>set xs. ctx_of w x \<noteq> None"
  shows "\<exists>us t vs ct h' q'. xs = us @ t # vs \<and>
           (\<forall>u\<in>set us. prio_of (nodes w) t < prio_of (nodes w) u) \<and>
           (\<forall>v\<in>set vs. prio_of (nodes w) t \<le> prio_of (nodes w) v) \<and>
           ctx_of w t = Some ct \<and>
           uthread_exit w
             = Some (Inr (Jumped ct, w\<lparr>nodes := h', thread_queue := Some q'\<rparr>)) \<and>
           active q' = Some t \<and> queue_ring h' q' (us @ vs) \<and> h' a = None \<and>
           (\<forall>x\<in>set xs. prio_of h' x = prio_of (nodes w) x)"
proof -
  let ?h = "nodes w"
  from get_ring [OF qr ne] obtain us t vs h1 q1 where
    xs: "xs = us @ t # vs"
    and get: "get_priority_thread (?h, q) = Some (Inr (Some t, h1, q1))"
    and lo: "\<forall>u\<in>set us. prio_of ?h t < prio_of ?h u"
    and hi: "\<forall>v\<in>set vs. prio_of ?h t \<le> prio_of ?h v"
    and qr1: "queue_ring h1 q1 (us @ vs)"
    and pl: "payload h1 = payload ?h" and ac1: "active q1 = active q"
    by blast
  from payload_live [OF pl na] obtain na1 where na1: "h1 a = Some na1" by auto
  from out xs have out1: "a \<notin> set (us @ vs)" and ta: "t \<noteq> a" by auto
  let ?h2 = "h1(a := None)"
  have fr: "free_node h1 (active q1) = Inr ?h2"
    using ac ac1 na1 by (simp add: free_node_def)
  have qr2: "queue_ring ?h2 (q1\<lparr>active := Some t\<rparr>) (us @ vs)"
    using queue_ring_free [OF qr1 out1] by (simp add: queue_ring_active)
  from cx xs obtain ct where ct: "ctx_of w t = Some ct" by auto
  from ctx_of_live [OF ct] obtain nt ut where
    nt: "?h t = Some nt" "context_n nt = Some ct" "contexts w ct = Some ut"
    by blast
  from payload_live [OF pl nt(1)] obtain tn where
    tn: "h1 t = Some tn" "context_n tn = Some ct"
    using nt by auto
  with ta have tn2: "?h2 t = Some tn" by simp
  have sc: "setcontext (contexts w) (Some ct) = Inr (Jumped ct)"
    using nt by (simp add: setcontext_def live_context_def)
  from qr ne have sz: "size_q q \<noteq> 0" by (auto simp: queue_ring_def)
  have wq: "w\<lparr>nodes := ?h2, thread_queue := Some (q1\<lparr>active := Some t\<rparr>), lock := Some (Suc n)\<rparr>
              = w\<lparr>nodes := ?h2, thread_queue := Some (q1\<lparr>active := Some t\<rparr>)\<rparr>"
    using lk by simp
  have run: "uthread_exit w
      = Some (Inr (Jumped ct, w\<lparr>nodes := ?h2, thread_queue := Some (q1\<lparr>active := Some t\<rparr>)\<rparr>))"
    using lk tq sz get fr tn tn2 sc wq
    by (simp add: uthread_exit_def sem_wait_def sem_post_def deref_live)
  have px: "\<forall>x\<in>set xs. prio_of ?h2 x = prio_of ?h x"
    using out payload_prio [OF pl] by (auto simp: prio_of_def)
  have "active (q1\<lparr>active := Some t\<rparr>) = Some t" and "?h2 a = None" by simp_all
  with xs lo hi ct run qr2 px show ?thesis by blast
qed

lemma ex_world_facts:
  "lock ex_world = Some (Suc 0)" "thread_queue ex_world = Some ex_queue"
  "queue_ring (nodes ex_world) ex_queue [1, 2, 3]" "active ex_queue = Some 4"
  "\<forall>x\<in>set (4 # [1, 2, 3]). ctx_of ex_world x \<noteq> None"
  "nodes ex_world 4 = Some \<lparr>priority = 9, func = 4, context_n = Some 24,
     next_n = None, prev_n = None\<rparr>"
  using ex_queue_ring
  by (simp_all add: ex_world_def ex_queue_def ctx_of_def ex_nodes_def ex_contexts_def)

text \<open>
  C5, as the code has it. A successful \<open>uthread_yield\<close> writes the new priority into the
  caller's record first. The selection that follows runs while the caller is outside
  the ring, so it chooses among the records that were ready before the call, by their
  own priorities: the record chosen is never the caller, however small the new
  priority. The caller is then put back into the ring, as its newest record, with the
  new priority, which counts from the next selection on.
\<close>

theorem uthread_yield_selects_before_reinsertion:
  assumes "lock w = Some (Suc n)" and "thread_queue w = Some q"
    and "queue_ring (nodes w) q xs" and "xs \<noteq> []"
    and "active q = Some a" and "a \<notin> set xs"
    and "\<forall>x\<in>set (a # xs). ctx_of w x \<noteq> None"
  shows "\<exists>us t vs ca ct w' q'. xs = us @ t # vs \<and> t \<noteq> a \<and>
           (\<forall>u\<in>set us. prio_of (nodes w) t < prio_of (nodes w) u) \<and>
           (\<forall>v\<in>set vs. prio_of (nodes w) t \<le> prio_of (nodes w) v) \<and>
           ctx_of w a = Some ca \<and> ctx_of w t = Some ct \<and>
           uthread_yield p w = Some (Inr (Switched ca ct, w')) \<and>
           thread_queue w' = Some q' \<and> active q' = Some t \<and>
           queue_ring (nodes w') q' (us @ vs @ [a]) \<and>
           prio_of (nodes w') a = p \<and>
           (\<forall>x\<in>set xs. prio_of (nodes w') x = prio_of (nodes w) x)"
proof -
  from yield_run [OF assms, of p] obtain us t vs ca ct h' q' where
    r: "xs = us @ t # vs"
      "\<forall>u\<in>set us. prio_of (nodes w) t < prio_of (nodes w) u"
      "\<forall>v\<in>set vs. prio_of (nodes w) t \<le> prio_of (nodes w) v"
      "ctx_of w a = Some ca" "ctx_of w t = Some ct"
      "uthread_yield p w = Some (Inr (Switched ca ct, w\<lparr>nodes := h', thread_queue := Some q'\<rparr>))"
      "active q' = Some t" "queue_ring h' q' (us @ vs @ [a])" "prio_of h' a = p"
      "\<forall>x\<in>set xs. prio_of h' x = prio_of (nodes w) x"
    by blast
  let ?w = "w\<lparr>nodes := h', thread_queue := Some q'\<rparr>"
  from r(1) assms(6) have "t \<noteq> a" by auto
  with r show ?thesis
    by (intro exI [of _ us] exI [of _ t] exI [of _ vs] exI [of _ ca] exI [of _ ct]
        exI [of _ ?w] exI [of _ q']) simp
qed

theorem uthread_yield_selects_before_reinsertion_witness:
  "lock ex_world = Some (Suc 0) \<and> thread_queue ex_world = Some ex_queue \<and>
   queue_ring (nodes ex_world) ex_queue [1, 2, 3] \<and> active ex_queue = Some 4 \<and>
   (\<exists>us t vs ca ct w' q'. [1, 2, 3] = us @ t # vs \<and> t \<noteq> 4 \<and>
      (\<forall>u\<in>set us. prio_of (nodes ex_world) t < prio_of (nodes ex_world) u) \<and>
      (\<forall>v\<in>set vs. prio_of (nodes ex_world) t \<le> prio_of (nodes ex_world) v) \<and>
      ctx_of ex_world 4 = Some ca \<and> ctx_of ex_world t = Some ct \<and>
      uthread_yield 0 ex_world = Some (Inr (Switched ca ct, w')) \<and>
      thread_queue w' = Some q' \<and> active q' = Some t \<and>
      queue_ring (nodes w') q' (us @ vs @ [4]) \<and>
      prio_of (nodes w') 4 = 0 \<and>
      (\<forall>x\<in>set [1, 2, 3]. prio_of (nodes w') x = prio_of (nodes ex_world) x))"
proof -
  have ne: "[1, 2, 3] \<noteq> ([] :: addr list)" and out: "(4 :: addr) \<notin> set [1, 2, 3]"
    by simp_all
  from uthread_yield_selects_before_reinsertion
    [OF ex_world_facts(1) ex_world_facts(2) ex_world_facts(3) ne ex_world_facts(4) out
      ex_world_facts(5), of 0]
    ex_world_facts(1) ex_world_facts(2) ex_world_facts(3) ex_world_facts(4)
  show ?thesis by blast
qed

text \<open>The running record 4 yields with priority 0, below every ready priority. Record 2
  runs next, not record 4, whose priority is 0 after the call; the ready priorities
  are 5, 3 and 3 as before.\<close>

theorem uthread_yield_never_selects_caller:
  "map_option (map_sum id (\<lambda>(out, w').
       (out, map_option active (thread_queue w'), map (prio_of (nodes w')) [4, 1, 2, 3])))
     (uthread_yield 0 ex_world)
   = Some (Inr (Switched 24 22, Some (Some 2), [0, 5, 3, 3]))"
  by (simp add: uthread_yield_def ex_world_def ex_queue_def ex_nodes_def ex_contexts_def
      sem_wait_def sem_post_def set_priority_def get_priority_thread_def deref_def
      scan.simps unlink_def add_def set_next_def set_prev_def swapcontext_def
      live_context_def prio_of_def Let_def)

text \<open>
  C7, as the code has it. When \<open>uthread_exit\<close> finds the ring not empty, it removes the
  first ready record of least priority, frees the record of the exiting thread, makes
  the removed record \<open>active\<close>, releases the semaphore and enters the context of that
  record with \<open>setcontext\<close>, from which the call does not return. Only the record of
  the exiting thread is freed: the contexts and the stacks are what they were before
  the call, the exiting thread's included.
\<close>

theorem uthread_exit_frees_record_only:
  assumes "lock w = Some (Suc n)" and "thread_queue w = Some q"
    and "queue_ring (nodes w) q xs" and "xs \<noteq> []"
    and "active q = Some a" and "nodes w a = Some na" and "a \<notin> set xs"
    and "\<forall>x\<in>set xs. ctx_of w x \<noteq> None"
  shows "\<exists>us t vs ct w' q'. xs = us @ t # vs \<and>
           (\<forall>u\<in>set us. prio_of (nodes w) t < prio_of (nodes w) u) \<and>
           (\<forall>v\<in>set vs. prio_of (nodes w) t \<le> prio_of (nodes w) v) \<and>
           ctx_of w t = Some ct \<and>
           uthread_exit w = Some (Inr (Jumped ct, w')) \<and>
           nodes w' a = None \<and> contexts w' = contexts w \<and> stacks w' = stacks w \<and>
           lock w' = lock w \<and> thread_queue w' = Some q' \<and> active q' = Some t \<and>
           queue_ring (nodes w') q' (us @ vs)"
proof -
  from exit_run [OF assms] obtain us t vs ct h' q' where
    r: "xs = us @ t # vs"
      "\<forall>u\<in>set us. prio_of (nodes w) t < prio_of (nodes w) u"
      "\<forall>v\<in>set vs. prio_of (nodes w) t \<le> prio_of (nodes w) v"
      "ctx_of w t = Some ct"
      "uthread_exit w = Some (Inr (Jumped ct, w\<lparr>nodes := h', thread_queue := Some q'\<rparr>))"
      "active q' = Some t" "queue_ring h' q' (us @ vs)" "h' a = None"
    by blast
  let ?w = "w\<lparr>nodes := h', thread_queue := Some q'\<rparr>"
  from r show ?thesis
    by (intro exI [of _ us] exI [of _ t] exI [of _ vs] exI [of _ ct]
        exI [of _ ?w] exI [of _ q']) simp
qed

theorem uthread_exit_frees_record_only_witness:
  "lock ex_world = Some (Suc 0) \<and> thread_queue ex_world = Some ex_queue \<and>
   queue_ring (nodes ex_world) ex_queue [1, 2, 3] \<and> active ex_queue = Some 4 \<and>
   (\<exists>us t vs ct w' q'. [1, 2, 3] = us @ t # vs \<and>
      (\<forall>u\<in>set us. prio_of (nodes ex_world) t < prio_of (nodes ex_world) u) \<and>
      (\<forall>v\<in>set vs. prio_of (nodes ex_world) t \<le> prio_of (nodes ex_world) v) \<and>
      ctx_of ex_world t = Some ct \<and>
      uthread_exit ex_world = Some (Inr (Jumped ct, w')) \<and>
      nodes w' 4 = None \<and> contexts w' = contexts ex_world \<and> stacks w' = stacks ex_world \<and>
      lock w' = lock ex_world \<and> thread_queue w' = Some q' \<and> active q' = Some t \<and>
      queue_ring (nodes w') q' (us @ vs))"
proof -
  have ne: "[1, 2, 3] \<noteq> ([] :: addr list)" and out: "(4 :: addr) \<notin> set [1, 2, 3]"
    by simp_all
  have cx: "\<forall>x\<in>set [1, 2, 3]. ctx_of ex_world x \<noteq> None"
    using ex_world_facts(5) by simp
  from uthread_exit_frees_record_only
    [OF ex_world_facts(1) ex_world_facts(2) ex_world_facts(3) ne ex_world_facts(4)
      ex_world_facts(6) out cx]
    ex_world_facts(1) ex_world_facts(2) ex_world_facts(3) ex_world_facts(4)
  show ?thesis by blast
qed

text \<open>Record 4 exits while 1, 2 and 3 are ready: record 2 runs next, record 4 is freed,
  and its context 24 and its stack 34 are still allocated.\<close>

theorem uthread_exit_keeps_context:
  "map_option (map_sum id (\<lambda>(out, w').
       (out, nodes w' 4, contexts w' 24, 34 \<in> stacks w')))
     (uthread_exit ex_world)
   = Some (Inr (Jumped 22, None,
        Some \<lparr>ss_sp = Some 34, ss_size = STACK_SIZE, entry = Some 4\<rparr>, True))"
  by (simp add: uthread_exit_def ex_world_def ex_queue_def ex_nodes_def ex_contexts_def
      sem_wait_def sem_post_def get_priority_thread_def deref_def scan.simps unlink_def
      set_next_def set_prev_def free_node_def setcontext_def live_context_def Let_def)

section \<open>The ring invariant and the two queue operations\<close>

lemma walk_length: "walk f h k p = Some (ys, e) \<Longrightarrow> length ys = k"
  by (induction k arbitrary: p ys) (auto split: option.splits)

lemma walk_prev_chain:
  "chain h a r b \<Longrightarrow> walk prev_n h (Suc (length r)) (Some a) = Some (a # r, Some b)"
proof (induction r arbitrary: a)
  case Nil
  then show ?case
    by (auto simp: linked_def prev_of_def split: option.splits)
next
  case (Cons y r)
  from Cons.prems have lk: "linked h a y" and ch: "chain h y r b" by simp_all
  from lk obtain n where "h a = Some n" "prev_n n = Some y"
    by (auto simp: linked_def prev_of_def split: option.splits)
  with Cons.IH [OF ch] show ?case by simp
qed

lemma walk_next_chain:
  "chain h a r b \<Longrightarrow> walk next_n h (Suc (length r)) (Some b) = Some (b # rev r, Some a)"
proof (induction r arbitrary: b rule: rev_induct)
  case Nil
  then show ?case
    by (auto simp: linked_def next_of_def split: option.splits)
next
  case (snoc l ws)
  from snoc.prems have ch: "chain h a ws l" and lk: "linked h l b"
    by (simp_all add: chain_snoc)
  from lk obtain n where "h b = Some n" "next_n n = Some l"
    by (auto simp: linked_def next_of_def split: option.splits)
  with snoc.IH [OF ch] show ?case by simp
qed

lemma walk_Suc_Some:
  "walk f h (Suc k) p = Some (zs, e) \<Longrightarrow>
   \<exists>a n ys. p = Some a \<and> h a = Some n \<and> zs = a # ys \<and> walk f h k (f n) = Some (ys, e)"
  by (auto split: option.splits)

lemma walk_snoc:
  "walk f h (Suc k) p = Some (zs, e) \<Longrightarrow>
   \<exists>zs' y n. zs = zs' @ [y] \<and> walk f h k p = Some (zs', Some y) \<and> h y = Some n \<and> f n = e"
proof (induction k arbitrary: p zs)
  case 0
  then show ?case by (auto split: option.splits)
next
  case (Suc k)
  from walk_Suc_Some [OF Suc.prems] obtain a n ys where
    p: "p = Some a" "h a = Some n" "zs = a # ys" and w: "walk f h (Suc k) (f n) = Some (ys, e)"
    by blast
  from Suc.IH [OF w] obtain zs' y m where
    ys: "ys = zs' @ [y]" and w': "walk f h k (f n) = Some (zs', Some y)"
    and m: "h y = Some m" "f m = e"
    by blast
  from p w' have "walk f h (Suc k) p = Some (a # zs', Some y)" by simp
  with p ys m show ?case by auto
qed

lemma chain_of_walks:
  "walk prev_n h (Suc (length r)) (Some a) = Some (a # r, Some b) \<Longrightarrow>
   walk next_n h (Suc (length r)) (Some b) = Some (b # rev r, Some a) \<Longrightarrow>
   chain h a r b"
proof (induction r arbitrary: a)
  case Nil
  then show ?case
    by (auto simp: linked_def prev_of_def next_of_def split: option.splits)
next
  case (Cons y r)
  from walk_Suc_Some [OF Cons.prems(1)] obtain n where
    n: "h a = Some n" and w1: "walk prev_n h (Suc (length r)) (prev_n n) = Some (y # r, Some b)"
    by auto
  from walk_Suc_Some [OF w1] have py: "prev_n n = Some y" by auto
  from Cons.prems(2) have
    "walk next_n h (Suc (Suc (length r))) (Some b) = Some ((b # rev r) @ [y], Some a)"
    by simp
  from walk_snoc [OF this] obtain m where
    w2: "walk next_n h (Suc (length r)) (Some b) = Some (b # rev r, Some y)"
    and m: "h y = Some m" "next_n m = Some a"
    by auto
  from n py m have "linked h a y" by (simp add: linked_def prev_of_def next_of_def)
  moreover from w1 py w2 have "chain h y r b" by (intro Cons.IH) simp_all
  ultimately show ?case by simp
qed

lemma queue_ring_invariant:
  assumes "queue_ring h q xs"
  shows "ring_invariant h q \<and> ready h q = xs"
proof (cases xs)
  case Nil
  with assms show ?thesis by (simp add: queue_ring_def ring_invariant_def ready_def)
next
  case (Cons x r)
  with assms have sz: "size_q q = int (Suc (length r))" and hd: "head q = Some x"
    and dist: "distinct (x # r)" and ch: "chain h x r x"
    by (auto simp: queue_ring_def ring_def)
  from sz have n: "nat (size_q q) = Suc (length r)" by simp
  from walk_prev_chain [OF ch] walk_next_chain [OF ch] sz hd dist Cons
  show ?thesis unfolding ring_invariant_def ready_def n by simp
qed

lemma ring_invariant_queue_ring:
  assumes "ring_invariant h q"
  shows "queue_ring h q (ready h q)"
proof (cases "size_q q = 0")
  case True
  then show ?thesis by (simp add: queue_ring_def ready_def ring_def)
next
  case False
  with assms have pos: "0 < size_q q" by (simp add: ring_invariant_def)
  then obtain k where k: "nat (size_q q) = Suc k" by (cases "nat (size_q q)") auto
  from assms False obtain xs where
    wp: "walk prev_n h (Suc k) (head q) = Some (xs, head q)" and dist: "distinct xs"
    and wn: "walk next_n h (Suc k) (head q) = Some (hd xs # rev (tl xs), head q)"
    unfolding ring_invariant_def k by (auto split: option.splits)
  from walk_Suc_Some [OF wp] obtain x r where hd: "head q = Some x" and xs: "xs = x # r"
    by auto
  from walk_length [OF wp] xs have len: "length r = k" by simp
  from wp wn hd xs len have "chain h x r x"
    by (intro chain_of_walks) simp_all
  moreover from wp pos k have "ready h q = xs" by (simp add: ready_def)
  moreover from k len have "size_q q = int (Suc (length r))" by linarith
  ultimately show ?thesis using dist hd xs by (simp add: queue_ring_def ring_def)
qed

lemma ring_walks:
  assumes rg: "ring h xs" and a: "a \<in> set xs"
  shows "\<exists>ys zs. walk next_n h (length xs) (Some a) = Some (ys, Some a) \<and> set ys = set xs \<and>
           walk prev_n h (length xs) (Some a) = Some (zs, Some a) \<and> set zs = set xs"
proof -
  from a obtain us vs where xs: "xs = us @ a # vs" by (auto simp: in_set_conv_decomp)
  with rg have "ring h ((a # vs) @ us)" using ring_rotate [of h us "a # vs"] by simp
  then have ch: "chain h a (vs @ us) a" by (simp add: ring_def)
  have len: "length xs = Suc (length (vs @ us))" using xs by simp
  from walk_next_chain [OF ch] walk_prev_chain [OF ch] xs show ?thesis
    unfolding len by auto
qed

text \<open>
  C6. The ring invariant is kept by both queue operations. From a queue that has it,
  \<open>add\<close> of a live record that is not ready leads to a queue that has it, with the record
  as the newest ready record, and \<open>get_priority_thread\<close> returns and leads to a queue
  that has it, with the ready records less the one returned. Under the invariant,
  \<open>size\<close> steps along \<open>next\<close>, and \<open>size\<close> steps along \<open>prev\<close>, from any ready record visit
  all the ready records and come back to that record, and \<open>size\<close> is the number of the
  ready records. A queue of \<open>size\<close> 0, as \<open>system_init\<close> leaves it, has the invariant.
\<close>

theorem ring_invariant_preserved:
  assumes inv: "ring_invariant h q"
  shows "(\<forall>item n. h item = Some n \<and> item \<notin> set (ready h q) \<longrightarrow>
            (\<exists>h' q'. add (h, q) (Some item) = Inr (h', q') \<and> ring_invariant h' q' \<and>
               ready h' q' = ready h q @ [item])) \<and>
         (\<exists>p h' q'. get_priority_thread (h, q) = Some (Inr (p, h', q')) \<and>
            ring_invariant h' q' \<and>
            ready h' q' = (case p of None \<Rightarrow> ready h q | Some t \<Rightarrow> remove1 t (ready h q))) \<and>
         (\<forall>a\<in>set (ready h q). \<exists>ys zs.
            walk next_n h (nat (size_q q)) (Some a) = Some (ys, Some a) \<and>
            set ys = set (ready h q) \<and>
            walk prev_n h (nat (size_q q)) (Some a) = Some (zs, Some a) \<and>
            set zs = set (ready h q)) \<and>
         int (length (ready h q)) = size_q q \<and>
         (\<forall>junk. ring_invariant h (junk\<lparr>size_q := 0\<rparr>))"
proof (intro conjI allI impI ballI)
  let ?xs = "ready h q"
  have qr: "queue_ring h q ?xs" using inv by (rule ring_invariant_queue_ring)
  then have rg: "ring h ?xs" and sz: "size_q q = int (length ?xs)"
    by (simp_all add: queue_ring_def)
  show "int (length ?xs) = size_q q" using sz by simp
  {
    fix item n
    assume "h item = Some n \<and> item \<notin> set ?xs"
    then have "h item = Some n" and "item \<notin> set ?xs" by simp_all
    from add_ring [OF qr this] obtain h' q' where
      "add (h, q) (Some item) = Inr (h', q')" and "queue_ring h' q' (?xs @ [item])"
      by blast
    with queue_ring_invariant [of h' q' "?xs @ [item]"]
    show "\<exists>h' q'. add (h, q) (Some item) = Inr (h', q') \<and> ring_invariant h' q' \<and>
            ready h' q' = ?xs @ [item]"
      by blast
  }
  show "\<exists>p h' q'. get_priority_thread (h, q) = Some (Inr (p, h', q')) \<and>
          ring_invariant h' q' \<and>
          ready h' q' = (case p of None \<Rightarrow> ?xs | Some t \<Rightarrow> remove1 t ?xs)"
  proof (cases "?xs = []")
    case True
    with qr have "get_priority_thread (h, q) = Some (Inr (None, h, q))"
      by (simp add: get_empty)
    with inv show ?thesis by simp
  next
    case False
    from get_ring [OF qr False] obtain us t vs h' q' where
      sp: "?xs = us @ t # vs"
      and run: "get_priority_thread (h, q) = Some (Inr (Some t, h', q'))"
      and qr': "queue_ring h' q' (us @ vs)"
      by blast
    from rg have "distinct ?xs" by (rule ring_distinct)
    with sp have "distinct (us @ t # vs)" by simp
    then have "t \<notin> set us" by simp
    with sp have "remove1 t ?xs = us @ vs" by (simp add: remove1_append)
    with queue_ring_invariant [OF qr'] run show ?thesis by simp
  qed
  {
    fix a
    assume "a \<in> set ?xs"
    from ring_walks [OF rg this] sz
    show "\<exists>ys zs. walk next_n h (nat (size_q q)) (Some a) = Some (ys, Some a) \<and>
            set ys = set ?xs \<and>
            walk prev_n h (nat (size_q q)) (Some a) = Some (zs, Some a) \<and> set zs = set ?xs"
      by simp
  }
  {
    fix junk :: queue_t
    show "ring_invariant h (junk\<lparr>size_q := 0\<rparr>)" by (simp add: ring_invariant_def)
  }
qed

theorem ring_invariant_preserved_witness:
  "ring_invariant ex_nodes ex_queue \<and> ready ex_nodes ex_queue = [1, 2, 3] \<and>
   (\<exists>h' q'. add (ex_nodes, ex_queue) (Some 4) = Inr (h', q') \<and> ring_invariant h' q' \<and>
      ready h' q' = [1, 2, 3, 4]) \<and>
   (\<exists>p h' q'. get_priority_thread (ex_nodes, ex_queue) = Some (Inr (p, h', q')) \<and>
      ring_invariant h' q' \<and>
      ready h' q' = (case p of None \<Rightarrow> [1, 2, 3] | Some t \<Rightarrow> remove1 t [1, 2, 3])) \<and>
   int (length (ready ex_nodes ex_queue)) = size_q ex_queue"
proof -
  have a: "ring_invariant ex_nodes ex_queue"
    by (simp add: ring_invariant_def ex_nodes_def ex_queue_def numeral_3_eq_3)
  have b: "ready ex_nodes ex_queue = [1, 2, 3]"
    by (simp add: ready_def ex_nodes_def ex_queue_def numeral_3_eq_3)
  have c: "ex_nodes 4 = Some \<lparr>priority = 9, func = 4, context_n = Some 24,
             next_n = None, prev_n = None\<rparr> \<and> 4 \<notin> set (ready ex_nodes ex_queue)"
    unfolding b by (simp add: ex_nodes_def)
  have "\<exists>h' q'. add (ex_nodes, ex_queue) (Some 4) = Inr (h', q') \<and> ring_invariant h' q' \<and>
       ready h' q' = [1, 2, 3] @ [4]"
    using ring_invariant_preserved [OF a] c unfolding b by blast
  then have
    "\<exists>h' q'. add (ex_nodes, ex_queue) (Some 4) = Inr (h', q') \<and> ring_invariant h' q' \<and>
       ready h' q' = [1, 2, 3, 4]"
    by simp
  moreover have
    "\<exists>p h' q'. get_priority_thread (ex_nodes, ex_queue) = Some (Inr (p, h', q')) \<and>
       ring_invariant h' q' \<and>
       ready h' q' = (case p of None \<Rightarrow> [1, 2, 3] | Some t \<Rightarrow> remove1 t [1, 2, 3])"
    using ring_invariant_preserved [OF a] unfolding b by blast
  moreover from ring_invariant_preserved [OF a] have
    "int (length (ready ex_nodes ex_queue)) = size_q ex_queue"
    by blast
  ultimately show ?thesis using a b by blast
qed

section \<open>Ties\<close>

text \<open>The tie-break of the selection. The list of a ring is in the order of insertion
  (\<open>add_ring\<close>: a new record goes to the end; \<open>unlink_ring\<close>: a removal keeps the order
  of the rest), and the record selected is the first of least priority in this list:
  every record before it has a strictly greater priority.\<close>

lemma get_priority_thread_fifo:
  assumes "queue_ring h q xs" and "b \<in> set xs"
  shows "\<exists>us p vs h' q'. xs = us @ p # vs \<and>
           get_priority_thread (h, q) = Some (Inr (Some p, h', q')) \<and>
           (prio_of h b = prio_of h p \<longrightarrow> b \<notin> set us)"
proof -
  from assms(2) have "xs \<noteq> []" by auto
  from get_ring [OF assms(1) this] obtain us p vs h' q' where
    "xs = us @ p # vs" "get_priority_thread (h, q) = Some (Inr (Some p, h', q'))"
    "\<forall>u\<in>set us. prio_of h p < prio_of h u"
    by blast
  then show ?thesis by force
qed

text \<open>Scenario B run by a thread that has a record: on the system with nothing ready and
  record 4 running, two threads of priority 5 are created (records 5 and 6, contexts 25
  and 26) and record 4 yields with priority 5. The context entered is 25, that of the
  first thread created.\<close>

lemma scenario_b_from_a_record:
  "andThenP (uthread_create 1 5 (Some (5, ex_junk)) (Some 25) (Some 35) ex_idle_world)
     (\<lambda>(r1, w1).
   andThenP (uthread_create 2 5 (Some (6, ex_junk)) (Some 26) (Some 36) w1) (\<lambda>(r2, w2).
   andThenP (uthread_yield 5 w2) (\<lambda>(out, w3).
   Some (Inr (r1, r2, out, map_option active (thread_queue w3))))))
   = Some (Inr (Returned 0, Returned 0, Switched 24 25, Some (Some 5)))"
  by (simp add: uthread_create_def ex_idle_world_def ex_idle_def ex_junk_def sem_wait_def
      sem_post_def add_def set_next_def set_prev_def uthread_yield_def set_priority_def
      get_priority_thread_def deref_def scan.simps unlink_def swapcontext_def
      live_context_def Let_def)

text \<open>
  C2. Scenario B as the claim has it, run by the initial thread: \<open>system_init\<close> on a
  block of zeros, two threads of priority 5 created (records 1 and 2), \<open>uthread_yield\<close>
  with priority 5. The selection on the queue so built returns record 1, the first
  created; but \<open>uthread_yield\<close> writes the priority through \<open>active\<close> before it selects,
  and \<open>active\<close> is null, so the call ends in a null dereference and no thread runs next.
\<close>

theorem scenario_b_from_initial_thread:
  "andThenP (system_init (Some ex_zero_block) boot) (\<lambda>w0.
   andThenP (uthread_create 1 5 (Some (1, ex_junk)) (Some 21) (Some 31) w0) (\<lambda>(r1, w1).
   andThenP (uthread_create 2 5 (Some (2, ex_junk)) (Some 22) (Some 32) w1) (\<lambda>(r2, w2).
     uthread_yield 5 w2)))
   = Some (Inl NullPointer) \<and>
   andThenP (system_init (Some ex_zero_block) boot) (\<lambda>w0.
   andThenP (uthread_create 1 5 (Some (1, ex_junk)) (Some 21) (Some 31) w0) (\<lambda>(r1, w1).
   andThenP (uthread_create 2 5 (Some (2, ex_junk)) (Some 22) (Some 32) w1) (\<lambda>(r2, w2).
     (case thread_queue w2 of
        None \<Rightarrow> None
      | Some q \<Rightarrow> map_option (map_sum id fst) (get_priority_thread (nodes w2, q))))))
   = Some (Inr (Some 1))"
  by (simp add: system_init_def boot_def ex_zero_block_def ex_junk_def uthread_create_def
      sem_wait_def sem_post_def add_def set_next_def set_prev_def uthread_yield_def
      set_priority_def get_priority_thread_def deref_def scan.simps unlink_def Let_def)

end
